theory Spec2Isabelle
  imports Main "HOL-Library.Word" "HOL-Library.Multiset"
begin

unbundle bit_operations_syntax

section \<open>csvdiff: key-based reconciliation of two delimited-text tables\<close>

text \<open>
  A shallow embedding of \<^verbatim>\<open>csvdiff.go\<close>. Byte strings are \<^typ>\<open>string\<close>
  (a \<^typ>\<open>char\<close> is one byte), a Go slice that may be \<^verbatim>\<open>nil\<close> and is tested
  for it is an \<^typ>\<open>'a option\<close>, \<^verbatim>\<open>uint64\<close> and \<^verbatim>\<open>uint\<close> are
  \<^typ>\<open>64 word\<close> (a 64-bit platform), \<^verbatim>\<open>int\<close> is the signed reading
  \<^term>\<open>sint\<close> of such a word, the two Go maps that serve as caches are association
  lists with at most one entry per key, and \<^verbatim>\<open>log.Fatalf\<close> and runtime panics are
  values of the type \<open>error\<close>.

  The tokenizer and the writer of the \<^verbatim>\<open>yacr\<close> package are outside the repository.
  A reader is the finite sequence of results its \<^verbatim>\<open>Scan\<close> will deliver, and a flag
  telling whether the sequence ends in a read error; fields delivered by
  \<^verbatim>\<open>Bytes\<close> are taken as values. The writer is the list of rows handed to
  \<^verbatim>\<open>writeRow\<close>; it accepts every row, so the two write faults of the source
  (\<^verbatim>\<open>w.Err()\<close> after a row and after \<^verbatim>\<open>Flush\<close>) do not occur in
  this model. The order in which Go ranges over a map is not specified; here a cache is
  ranged over in the order its keys were first stored, and the order of the entries of
  \<^verbatim>\<open>config.ignoredFields\<close> is the order of the list that models it. The order
  shows in the order of the rows written by the two drains and in the index named by
  \<open>Ignored field n out of range\<close> when several are out of range, and in nothing else
  (\<open>drain_order\<close>, \<open>checkRow_order\<close>).
\<close>

subsection \<open>Data\<close>

type_synonym field = string
type_synonym Row = "field list"
type_synonym Keys = "64 word list"
type_synonym RowHash = "64 word"
type_synonym Cache = "(RowHash \<times> Row) list"

record Config =
  keys :: Keys
  ignoredFields :: "int list"
  noHeader :: bool
  sep :: char
  guess :: bool
  quoted :: bool
  format :: int
  symbol :: char
  common :: bool

datatype error =
    MissingFileArguments
  | TooManyFileArguments
  | SeparatorTooLong
  | MissingKeyArguments
  | InvalidFieldIndex string
  | KeyIndexOutOfRange "64 word"
  | IgnoredFieldOutOfRange int
  | ReadError
  | IndexPanic

text \<open>
  \<open>KeyIndexOutOfRange n\<close> and \<open>IgnoredFieldOutOfRange n\<close> carry the number the
  message prints (\<^verbatim>\<open>key+1\<close>, \<^verbatim>\<open>field+1\<close>); \<open>IndexPanic\<close> is Go's
  runtime panic "index out of range".
\<close>

subsection \<open>Command line\<close>

fun splitOn :: "char \<Rightarrow> string \<Rightarrow> string \<Rightarrow> string list" where
  "splitOn c [] cur = [cur]"
| "splitOn c (x # xs) cur = (if x = c then cur # splitOn c xs [] else splitOn c xs (cur @ [x]))"

definition isDigit :: "char \<Rightarrow> bool" where
  "isDigit c = (48 \<le> (of_char c :: nat) \<and> (of_char c :: nat) \<le> 57)"

definition decimal :: "string \<Rightarrow> int" where
  "decimal s = foldl (\<lambda>n c. 10 * n + (of_char c - 48)) 0 s"

text \<open>\<^verbatim>\<open>strconv.ParseUint(v, 10, 0)\<close>: digits only, not empty, below \<open>2^64\<close>.\<close>

definition parseUint :: "string \<Rightarrow> 64 word option" where
  "parseUint v =
     (if v = [] \<or> \<not> list_all isDigit v then None
      else if decimal v < 2 ^ 64 then Some (word_of_int (decimal v)) else None)"

fun atouisValues :: "string list \<Rightarrow> error + 64 word list" where
  "atouisValues [] = Inr []"
| "atouisValues (v # vs) =
     (case parseUint v of
        None \<Rightarrow> Inl (InvalidFieldIndex v)
      | Some f \<Rightarrow>
          (case atouisValues vs of
             Inl e \<Rightarrow> Inl e
           | Inr values \<Rightarrow> Inr ((f - 1) # values)))"

definition atouis :: "string \<Rightarrow> error + 64 word list" where
  "atouis s = atouisValues (splitOn CHR '','' s [])"

record flags =
  flag_n :: bool
  flag_f :: int
  flag_q :: bool
  flag_s :: string
  flag_k :: string
  flag_i :: string
  flag_c :: bool
  flag_s_given :: bool
  nArg :: nat

text \<open>
  \<open>parseArgs\<close> after \<^verbatim>\<open>flag.Parse\<close>. \<open>stdoutIsFile\<close> is the outcome of the test
  on \<^verbatim>\<open>os.Stdout.Stat()\<close>. The keys of the map \<^verbatim>\<open>ignoredFields\<close> are the
  signed readings of the parsed values.
\<close>

definition parseArgs :: "flags \<Rightarrow> bool \<Rightarrow> error + Config" where
  "parseArgs fl stdoutIsFile =
     (if nArg fl < 2 then Inl MissingFileArguments
      else if nArg fl > 2 then Inl TooManyFileArguments
      else
        let sepS = (if flag_s fl = [CHR 0x5C, CHR ''t''] then [CHR 0x09] else flag_s fl) in
        if flag_s fl \<noteq> [CHR 0x5C, CHR ''t''] \<and> length (flag_s fl) > 1 then Inl SeparatorTooLong
        else if flag_k fl = [] then Inl MissingKeyArguments
        else
          (case atouis (flag_k fl) of
             Inl e \<Rightarrow> Inl e
           | Inr ks \<Rightarrow>
               (case (if flag_i fl = [] then Inr [] else atouis (flag_i fl)) of
                  Inl e \<Rightarrow> Inl e
                | Inr is \<Rightarrow>
                    (case sepS of
                       [] \<Rightarrow> Inl IndexPanic
                     | s0 # _ \<Rightarrow>
                         Inr \<lparr> keys = ks,
                               ignoredFields = remdups (map sint is),
                               noHeader = flag_n fl,
                               sep = s0,
                               guess = \<not> flag_s_given fl,
                               quoted = flag_q fl,
                               format = (if flag_f fl = 0 \<and> stdoutIsFile then 1 else flag_f fl),
                               symbol = (if s0 = CHR ''|'' then CHR ''!'' else CHR ''|''),
                               common = flag_c fl \<rparr>))))"

subsection \<open>Row checks and the key hash\<close>

definition len :: "Row option \<Rightarrow> int" where
  "len row = (case row of None \<Rightarrow> 0 | Some r \<Rightarrow> int (length r))"

fun checkKeys :: "Keys \<Rightarrow> Row option \<Rightarrow> Row option \<Rightarrow> error + unit" where
  "checkKeys [] rowA rowB = Inr ()"
| "checkKeys (key # ks) rowA rowB =
     (if sint key \<ge> len rowA \<or> sint key \<ge> len rowB then Inl (KeyIndexOutOfRange (key + 1))
      else checkKeys ks rowA rowB)"

fun checkIgnored :: "int list \<Rightarrow> Row option \<Rightarrow> Row option \<Rightarrow> error + unit" where
  "checkIgnored [] rowA rowB = Inr ()"
| "checkIgnored (field # fs) rowA rowB =
     (if field \<ge> len rowA \<or> field \<ge> len rowB
      then Inl (IgnoredFieldOutOfRange (sint (word_of_int field + 1 :: 64 word)))
      else checkIgnored fs rowA rowB)"

definition checkRow :: "Row option \<Rightarrow> Row option \<Rightarrow> Config \<Rightarrow> error + unit" where
  "checkRow rowA rowB config =
     (case checkKeys (keys config) rowA rowB of
        Inl e \<Rightarrow> Inl e
      | Inr _ \<Rightarrow> checkIgnored (ignoredFields config) rowA rowB)"

text \<open>FNV-1a, 64 bit (\<^verbatim>\<open>hash/fnv.New64a\<close>).\<close>

definition offset64 :: RowHash where
  "offset64 = 14695981039346656037"

definition prime64 :: RowHash where
  "prime64 = 1099511628211"

definition hashWrite :: "RowHash \<Rightarrow> field \<Rightarrow> RowHash" where
  "hashWrite h bytes = foldl (\<lambda>h c. (h XOR of_char c) * prime64) h bytes"

fun hashKeys :: "Row \<Rightarrow> Keys \<Rightarrow> RowHash \<Rightarrow> error + RowHash" where
  "hashKeys row [] h = Inr h"
| "hashKeys row (i # is) h =
     (if uint i < int (length row) then hashKeys row is (hashWrite h (row ! unat i))
      else Inl IndexPanic)"

definition hashRow :: "Row \<Rightarrow> Keys \<Rightarrow> error + RowHash" where
  "hashRow row ks = hashKeys row ks offset64"

subsection \<open>The comparator\<close>

definition update :: "bool list option \<Rightarrow> nat \<Rightarrow> bool list option" where
  "update modifiedFields i =
     (case modifiedFields of
        None \<Rightarrow> None
      | Some mf \<Rightarrow> if i < length mf then Some (mf[i := True]) else Some mf)"

definition concat2 :: "field \<Rightarrow> field \<Rightarrow> int \<Rightarrow> char \<Rightarrow> field" where
  "concat2 valueA valueB fmt symb =
     (if fmt = 1 then valueA @ [symb, CHR ''-'', symb] @ valueB
      else if fmt = 2 then valueA @ [CHR 0x0A] @ valueB
      else [CHR 0x1B, CHR ''['', CHR ''1'', CHR ''m''] @ valueA
           @ [CHR 0x1B, CHR ''['', CHR ''0'', CHR ''m''] @ [symb]
           @ [CHR 0x1B, CHR ''['', CHR ''1'', CHR ''m''] @ valueB
           @ [CHR 0x1B, CHR ''['', CHR ''0'', CHR ''m''])"

definition delta :: "Row \<Rightarrow> char \<Rightarrow> Row" where
  "delta row sign = [sign] # row"

text \<open>Go's builtin \<^verbatim>\<open>copy(dst, src)\<close>, as the new contents of \<open>dst\<close>.\<close>

definition copy :: "'a list \<Rightarrow> 'a list \<Rightarrow> 'a list" where
  "copy dst src = take (length dst) src @ drop (length src) dst"

text \<open>\<^verbatim>\<open>make(Row, maxLen+1)\<close> with \<^verbatim>\<open>'#'\<close> in slot 0.\<close>

definition newDelta :: "nat \<Rightarrow> Row" where
  "newDelta maxLen = [CHR ''#''] # replicate maxLen []"

definition ignored :: "Config \<Rightarrow> nat \<Rightarrow> bool" where
  "ignored config i = (int i \<in> set (ignoredFields config))"

type_synonym cmp = "Row \<times> bool \<times> bool list option"

text \<open>The body of the first loop of \<open>areEquals\<close> at index \<open>i\<close>.\<close>

fun compareField :: "Config \<Rightarrow> Row \<Rightarrow> Row \<Rightarrow> nat \<Rightarrow> nat \<Rightarrow> cmp \<Rightarrow> cmp" where
  "compareField config rowA rowB maxLen i (rowDelta, same, modifiedFields) =
     (if \<not> ignored config i \<and> rowA ! i \<noteq> rowB ! i then
        let rowDelta1 =
              (if same
               then take 1 (newDelta maxLen) @ copy (drop 1 (newDelta maxLen)) (take i rowA)
               else rowDelta)
        in (rowDelta1[i + 1 := concat2 (rowA ! i) (rowB ! i) (format config) (symbol config)],
            False, update modifiedFields i)
      else if \<not> same then (rowDelta[i + 1 := rowA ! i], same, modifiedFields)
      else (rowDelta, same, modifiedFields))"

text \<open>The body of the second loop at index \<open>i\<close>.\<close>

fun padField :: "Config \<Rightarrow> Row \<Rightarrow> Row \<Rightarrow> nat \<Rightarrow> nat \<Rightarrow> cmp \<Rightarrow> cmp" where
  "padField config rowA rowB longest i (rowDelta, same, modifiedFields) =
     (if ignored config i then (rowDelta, same, modifiedFields)
      else if longest = 1 then
        (rowDelta[i + 1 := concat2 (rowA ! i) [CHR ''_''] (format config) (symbol config)],
         same, update modifiedFields i)
      else if longest = 2 then
        (rowDelta[i + 1 := concat2 [CHR ''_''] (rowB ! i) (format config) (symbol config)],
         same, update modifiedFields i)
      else (rowDelta, same, modifiedFields))"

text \<open>
  \<open>areEquals\<close> returns the delta row (\<open>[]\<close> for \<^verbatim>\<open>nil\<close>), the verdict, and the
  tracking vector as the in-place updates leave it.
\<close>

definition areEquals :: "Row \<Rightarrow> Row \<Rightarrow> Config \<Rightarrow> bool list option \<Rightarrow> cmp" where
  "areEquals rowA rowB config modifiedFields =
     (let minLen = (if length rowA > length rowB then length rowB else length rowA);
          maxLen = (if length rowA > length rowB then length rowA else length rowB);
          longest = (if length rowA > length rowB then 1
                     else if length rowB > length rowA then 2 else (0::nat));
          same = (\<not> length rowA > length rowB \<and> \<not> length rowB > length rowA);
          rowDelta = (if \<not> same then newDelta maxLen else [])
      in fold (padField config rowA rowB longest) [minLen..<maxLen]
           (fold (compareField config rowA rowB maxLen) [0..<minLen]
              (rowDelta, same, modifiedFields)))"

subsection \<open>Caches\<close>

text \<open>\<^verbatim>\<open>delete(cache, key)\<close> and \<^verbatim>\<open>cache[key] = row\<close>.\<close>

definition cacheDelete :: "RowHash \<Rightarrow> Cache \<Rightarrow> Cache" where
  "cacheDelete key cache = filter (\<lambda>kv. fst kv \<noteq> key) cache"

fun cacheStore :: "RowHash \<Rightarrow> Row \<Rightarrow> Cache \<Rightarrow> Cache" where
  "cacheStore key row [] = [(key, row)]"
| "cacheStore key row (kv # cache) =
     (if fst kv = key then (key, row) # cache else kv # cacheStore key row cache)"

definition searchCache :: "Cache \<Rightarrow> RowHash \<Rightarrow> Row option \<times> bool \<times> RowHash \<times> Cache" where
  "searchCache cache key =
     (case map_of cache key of
        Some row \<Rightarrow> (Some row, True, key, cacheDelete key cache)
      | None \<Rightarrow> (None, False, 0, cache))"

definition deepCopy :: "Row \<Rightarrow> Row" where
  "deepCopy row = map (\<lambda>bytes. copy (replicate (length bytes) (CHR 0x00)) bytes) row"

subsection \<open>Readers\<close>

type_synonym token = "field \<times> bool"

record reader =
  pending :: "token list"
  broken :: bool

text \<open>
  A token is what one successful \<^verbatim>\<open>Scan\<close> delivers: \<^verbatim>\<open>Bytes()\<close> and
  \<^verbatim>\<open>EndOfRecord()\<close>. \<open>scanRecord\<close> is the loop of \<open>readRow\<close>; it returns the
  buffer, \<^verbatim>\<open>eof\<close> and the tokens left.
\<close>

fun scanRecord :: "token list \<Rightarrow> Row \<Rightarrow> Row \<times> bool \<times> token list" where
  "scanRecord [] buffer = (buffer, True, [])"
| "scanRecord (t # ts) buffer =
     (if snd t then (buffer @ [fst t], False, ts) else scanRecord ts (buffer @ [fst t]))"

definition readRow :: "reader \<Rightarrow> bool \<Rightarrow> error + (Row option \<times> bool \<times> reader)" where
  "readRow r pEof =
     (if pEof then Inr (None, pEof, r)
      else
        (case scanRecord (pending r) [] of
           (buffer, eof, ts) \<Rightarrow>
             if eof \<and> broken r then Inl ReadError
             else if length buffer = 0 then Inr (None, eof, r\<lparr>pending := ts\<rparr>)
             else Inr (Some buffer, eof, r\<lparr>pending := ts\<rparr>)))"

subsection \<open>The reconciliation loop\<close>

datatype label = Named field nat | Indexed nat

datatype diag =
    DuplicateFirst Row
  | DuplicateSecond Row
  | Total "64 word" "64 word" "64 word" "64 word"
  | ModifiedFields "label list"

text \<open>
  The variables of \<open>main\<close> that live across iterations, the rows written to the delta
  stream (\<open>written\<close>) and the lines printed on standard error (\<open>diags\<close>; \<open>Total\<close>
  carries total, removed, added and modified as the summary line prints them).
\<close>

record state =
  cacheA :: Cache
  cacheB :: Cache
  headers :: "Row option"
  modifiedFields :: "bool list option"
  first :: bool
  addedCount :: "64 word"
  modifiedCount :: "64 word"
  removedCount :: "64 word"
  totalCount :: "64 word"
  written :: "Row list"
  diags :: "diag list"

definition writeRow :: "Row \<Rightarrow> state \<Rightarrow> state" where
  "writeRow row st = st\<lparr>written := written st @ [row]\<rparr>"

definition fields :: "Row option \<Rightarrow> Row" where
  "fields row = (case row of None \<Rightarrow> [] | Some r \<Rightarrow> r)"

text \<open>Lines 297 to 320: the two rows have the same key hash.\<close>

definition aligned :: "Config \<Rightarrow> Row \<Rightarrow> Row \<Rightarrow> state \<Rightarrow> state" where
  "aligned config rowA rowB st =
     (case areEquals rowA rowB config (modifiedFields st) of
        (rowDelta, same, mf) \<Rightarrow>
          let st1 = st\<lparr>modifiedFields := mf\<rparr> in
          if same then
            if first st1 then
              let st2 = st1\<lparr>first := False\<rparr>;
                  st3 = (if \<not> noHeader config
                         then (writeRow (delta rowA CHR ''='') st2)\<lparr>headers := Some (deepCopy rowA)\<rparr>
                         else if common config then writeRow (delta rowA CHR ''='') st2
                         else st2)
              in st3\<lparr>modifiedFields := Some (replicate (length rowA) False)\<rparr>
            else if common config then writeRow (delta rowA CHR ''='') st1
            else st1
          else
            let st2 = writeRow rowDelta st1;
                st3 = st2\<lparr>modifiedCount := modifiedCount st2 + 1\<rparr>
            in if first st3 then
                 let st4 = st3\<lparr>first := False\<rparr>;
                     st5 = (if \<not> noHeader config
                            then st4\<lparr>headers := Some (deepCopy (drop 1 rowDelta))\<rparr>
                            else st4)
                 in st5\<lparr>modifiedFields := Some (replicate (length rowDelta - 1) False)\<rparr>
               else st3)"

text \<open>Lines 322 to 335: row A against the pending rows of B.\<close>

definition probeA :: "Config \<Rightarrow> Row \<Rightarrow> RowHash \<Rightarrow> state \<Rightarrow> state" where
  "probeA config rowA hashA st =
     (case searchCache (cacheB st) hashA of
        (altB, found, _, cacheB1) \<Rightarrow>
          let st1 = st\<lparr>cacheB := cacheB1\<rparr> in
          if found then
            (case areEquals rowA (fields altB) config (modifiedFields st1) of
               (rowDelta, same, mf) \<Rightarrow>
                 let st2 = st1\<lparr>modifiedFields := mf\<rparr> in
                 if \<not> same then
                   let st3 = writeRow rowDelta st2 in st3\<lparr>modifiedCount := modifiedCount st3 + 1\<rparr>
                 else if common config then writeRow (delta rowA CHR ''='') st2
                 else st2)
          else
            let st2 = (if map_of (cacheA st1) hashA \<noteq> None
                       then st1\<lparr>diags := diags st1 @ [DuplicateFirst rowA]\<rparr>
                       else st1)
            in st2\<lparr>cacheA := cacheStore hashA (deepCopy rowA) (cacheA st2)\<rparr>)"

text \<open>Lines 336 to 349: row B against the pending rows of A.\<close>

definition probeB :: "Config \<Rightarrow> Row \<Rightarrow> RowHash \<Rightarrow> state \<Rightarrow> state" where
  "probeB config rowB hashB st =
     (case searchCache (cacheA st) hashB of
        (altA, found, _, cacheA1) \<Rightarrow>
          let st1 = st\<lparr>cacheA := cacheA1\<rparr> in
          if found then
            (case areEquals (fields altA) rowB config (modifiedFields st1) of
               (rowDelta, same, mf) \<Rightarrow>
                 let st2 = st1\<lparr>modifiedFields := mf\<rparr> in
                 if \<not> same then
                   let st3 = writeRow rowDelta st2 in st3\<lparr>modifiedCount := modifiedCount st3 + 1\<rparr>
                 else if common config then writeRow (delta rowB CHR ''='') st2
                 else st2)
          else
            let st2 = (if map_of (cacheB st1) hashB \<noteq> None
                       then st1\<lparr>diags := diags st1 @ [DuplicateSecond rowB]\<rparr>
                       else st1)
            in st2\<lparr>cacheB := cacheStore hashB (deepCopy rowB) (cacheB st2)\<rparr>)"

text \<open>
  Lines 274 to 283: the hashes of the two rows; when one row is missing, the other
  row's hash is looked up in the opposite cache, and a row found there takes the
  missing row's place. The result is \<open>rowA\<close>, \<open>rowB\<close>, \<open>hashA\<close>, \<open>hashB\<close> and the
  state. Both hashes are assigned on each of the three paths, so they are local here.
\<close>

definition pair :: "Config \<Rightarrow> Row option \<Rightarrow> Row option \<Rightarrow> state \<Rightarrow>
    error + (Row option \<times> Row option \<times> RowHash \<times> RowHash \<times> state)" where
  "pair config rowA rowB st =
     (case (rowA, rowB) of
        (Some a, Some b) \<Rightarrow>
          (case hashRow a (keys config) of
             Inl e \<Rightarrow> Inl e
           | Inr hashA \<Rightarrow>
               (case hashRow b (keys config) of
                  Inl e \<Rightarrow> Inl e
                | Inr hashB \<Rightarrow> Inr (rowA, rowB, hashA, hashB, st)))
      | (Some a, None) \<Rightarrow>
          (case hashRow a (keys config) of
             Inl e \<Rightarrow> Inl e
           | Inr hashA \<Rightarrow>
               (case searchCache (cacheB st) hashA of
                  (rowB1, _, hashB, cacheB1) \<Rightarrow> Inr (rowA, rowB1, hashA, hashB, st\<lparr>cacheB := cacheB1\<rparr>)))
      | (None, Some b) \<Rightarrow>
          (case hashRow b (keys config) of
             Inl e \<Rightarrow> Inl e
           | Inr hashB \<Rightarrow>
               (case searchCache (cacheA st) hashB of
                  (rowA1, _, hashA, cacheA1) \<Rightarrow> Inr (rowA1, rowB, hashA, hashB, st\<lparr>cacheA := cacheA1\<rparr>)))
      | (None, None) \<Rightarrow> Inr (rowA, rowB, 0, 0, st))"

text \<open>
  One iteration of the loop of \<open>main\<close> after the two reads (lines 261 to 350). When both
  rows are missing the iteration is left at once (the first \<^verbatim>\<open>continue\<close>).
\<close>

definition body :: "Config \<Rightarrow> Row option \<Rightarrow> Row option \<Rightarrow> state \<Rightarrow> error + state" where
  "body config rowA rowB st =
     (if rowA = None \<and> rowB = None then Inr st
      else
        (case (if first st then checkRow rowA rowB config else Inr ()) of
           Inl e \<Rightarrow> Inl e
         | Inr _ \<Rightarrow>
             (case pair config rowA rowB (st\<lparr>totalCount := totalCount st + 1\<rparr>) of
                Inl e \<Rightarrow> Inl e
              | Inr (rowA1, rowB1, hashA, hashB, st1) \<Rightarrow>
                  if rowA1 = None then
                    Inr ((writeRow (delta (fields rowB1) CHR ''+'') st1)
                           \<lparr>addedCount := addedCount st1 + 1\<rparr>)
                  else if rowB1 = None then
                    Inr ((writeRow (delta (fields rowA1) CHR ''-'') st1)
                           \<lparr>removedCount := removedCount st1 + 1\<rparr>)
                  else if hashA = hashB then Inr (aligned config (fields rowA1) (fields rowB1) st1)
                  else Inr (probeB config (fields rowB1) hashB
                              (probeA config (fields rowA1) hashA st1)))))"

text \<open>
  A run that is aborted yields the fault and the rows handed to the writer before it;
  within an iteration every fault precedes every write.
\<close>

type_synonym abort = "error \<times> Row list"

function loop :: "Config \<Rightarrow> reader \<Rightarrow> reader \<Rightarrow> bool \<Rightarrow> bool \<Rightarrow> state \<Rightarrow> abort + state" where
  "loop config readerA readerB eofA eofB st =
     (if \<not> eofA \<or> \<not> eofB then
        (case readRow readerA eofA of
           Inl e \<Rightarrow> Inl (e, written st)
         | Inr (rowA, eofA1, readerA1) \<Rightarrow>
             (case readRow readerB eofB of
                Inl e \<Rightarrow> Inl (e, written st)
              | Inr (rowB, eofB1, readerB1) \<Rightarrow>
                  (case body config rowA rowB st of
                     Inl e \<Rightarrow> Inl (e, written st)
                   | Inr st1 \<Rightarrow> loop config readerA1 readerB1 eofA1 eofB1 st1)))
      else Inr st)"
  by pat_completeness auto

lemma scanRecord_length:
  "scanRecord ts buffer = (row, eof, ts') \<Longrightarrow>
     (if eof then ts' = [] else length ts' < length ts)"
proof (induction ts arbitrary: buffer)
  case Nil
  then show ?case by simp
next
  case (Cons t ts)
  show ?case
  proof (cases "snd t")
    case True
    with Cons.prems show ?thesis by auto
  next
    case False
    with Cons.prems have "scanRecord ts (buffer @ [fst t]) = (row, eof, ts')" by simp
    from Cons.IH [OF this] show ?thesis by (auto split: if_splits)
  qed
qed

lemma readRow_measure:
  assumes "readRow r pEof = Inr (row, eof, r')"
  shows "length (pending r') + (if eof then 0 else 1) \<le> length (pending r) + (if pEof then 0 else 1)"
    and "\<not> pEof \<Longrightarrow>
           length (pending r') + (if eof then 0 else 1) < length (pending r) + (if pEof then 0 else 1)"
  using assms scanRecord_length [of "pending r" "[]"]
  by (auto simp: readRow_def split: if_splits prod.splits)

termination loop
proof (relation "measure (\<lambda>(config, readerA, readerB, eofA, eofB, st).
          length (pending readerA) + (if eofA then 0 else 1)
        + (length (pending readerB) + (if eofB then 0 else 1)))", goal_cases)
  case 1
  show ?case by simp
next
  case (2 config readerA readerB eofA eofB st x2 rowA y eofA1 readerA1 x2a rowB ya eofB1 readerB1 st1)
  from 2 have ra: "readRow readerA eofA = Inr (rowA, eofA1, readerA1)"
    and rb: "readRow readerB eofB = Inr (rowB, eofB1, readerB1)"
    by simp_all
  from 2(1) readRow_measure [OF ra] readRow_measure [OF rb]
  show ?case by auto
qed

declare loop.simps [simp del]

text \<open>Lines 352 to 359: what is left in the two caches.\<close>

definition drainA :: "state \<Rightarrow> state" where
  "drainA st =
     fold (\<lambda>kv s. (writeRow (delta (snd kv) CHR ''-'') s)\<lparr>removedCount := removedCount s + 1\<rparr>)
       (cacheA st) st"

definition drainB :: "state \<Rightarrow> state" where
  "drainB st =
     fold (\<lambda>kv s. (writeRow (delta (snd kv) CHR ''+'') s)\<lparr>addedCount := addedCount s + 1\<rparr>)
       (cacheB st) st"

text \<open>Lines 370 to 378, from position \<open>i\<close> of the tracking vector on.\<close>

fun modifiedLabels :: "Row option \<Rightarrow> bool list \<Rightarrow> nat \<Rightarrow> error + label list" where
  "modifiedLabels hs [] i = Inr []"
| "modifiedLabels hs (b # bs) i =
     (if b then
        (case hs of
           Some h \<Rightarrow>
             if i < length h then
               (case modifiedLabels hs bs (i + 1) of
                  Inl e \<Rightarrow> Inl e
                | Inr ls \<Rightarrow> Inr (Named (h ! i) (i + 1) # ls))
             else Inl IndexPanic
         | None \<Rightarrow>
             (case modifiedLabels hs bs (i + 1) of
                Inl e \<Rightarrow> Inl e
              | Inr ls \<Rightarrow> Inr (Indexed (i + 1) # ls)))
      else modifiedLabels hs bs (i + 1))"

text \<open>Lines 364 to 383: the summary and the exit status.\<close>

definition summary :: "state \<Rightarrow> error + (nat \<times> state)" where
  "summary st =
     (if addedCount st > 0 \<or> removedCount st > 0 \<or> modifiedCount st > 0 then
        let st1 = st\<lparr>diags := diags st
                     @ [Total (totalCount st) (removedCount st) (addedCount st) (modifiedCount st)]\<rparr>
        in if modifiedCount st > 0 then
             (case modifiedLabels (headers st)
                     (case modifiedFields st of None \<Rightarrow> [] | Some mf \<Rightarrow> mf) 0 of
                Inl e \<Rightarrow> Inl e
              | Inr ls \<Rightarrow> Inr (1, st1\<lparr>diags := diags st1 @ [ModifiedFields ls]\<rparr>))
           else Inr (1, st1)
      else Inr (0, st))"

definition initial :: state where
  "initial = \<lparr> cacheA = [], cacheB = [], headers = None, modifiedFields = None, first = True,
               addedCount = 0, modifiedCount = 0, removedCount = 0, totalCount = 0,
               written = [], diags = [] \<rparr>"

text \<open>\<open>main\<close> from line 240 on: the exit status and the final state, or the abort.\<close>

definition run :: "Config \<Rightarrow> reader \<Rightarrow> reader \<Rightarrow> abort + (nat \<times> state)" where
  "run config readerA readerB =
     (case loop config readerA readerB False False initial of
        Inl a \<Rightarrow> Inl a
      | Inr st \<Rightarrow>
          let st1 = drainB (drainA st) in
          (case summary st1 of
             Inl e \<Rightarrow> Inl (e, written st1)
           | Inr r \<Rightarrow> Inr r))"

definition main :: "flags \<Rightarrow> bool \<Rightarrow> reader \<Rightarrow> reader \<Rightarrow> abort + (nat \<times> state)" where
  "main fl stdoutIsFile readerA readerB =
     (case parseArgs fl stdoutIsFile of
        Inl e \<Rightarrow> Inl (e, [])
      | Inr config \<Rightarrow> run config readerA readerB)"

subsection \<open>Well-formed inputs\<close>

text \<open>
  The tokens of a file whose records are the given rows, each with at least one field,
  and the reader over such a file that does not fail.
\<close>

fun rowTokens :: "Row \<Rightarrow> token list" where
  "rowTokens [] = []"
| "rowTokens [f] = [(f, True)]"
| "rowTokens (f # g # fs) = (f, False) # rowTokens (g # fs)"

definition fileOf :: "Row list \<Rightarrow> reader" where
  "fileOf rows = \<lparr> pending = concat (map rowTokens rows), broken = False \<rparr>"

subsection \<open>The end-to-end example\<close>

definition exampleA :: "Row list" where
  "exampleA = [[''1'', ''Alice'', ''30''], [''2'', ''Bob'', ''25''], [''4'', ''Dana'', ''40'']]"

definition exampleB :: "Row list" where
  "exampleB = [[''2'', ''Bob'', ''25''], [''1'', ''Alice'', ''31''], [''3'', ''Carol'', ''22'']]"

text \<open>\<^verbatim>\<open>csvdiff -f=1 -k=1 [-c] FILEA FILEB\<close>\<close>

definition exampleFlags :: "bool \<Rightarrow> flags" where
  "exampleFlags c =
     \<lparr> flag_n = False, flag_f = 1, flag_q = True, flag_s = '','', flag_k = ''1'',
       flag_i = [], flag_c = c, flag_s_given = False, nArg = 2 \<rparr>"

subsection \<open>Positions marked as changed\<close>

text \<open>
  The comparator marks a position by calling \<open>update\<close> on the tracking vector. Run on a
  vector of \<open>False\<close> that has a slot for every position of the longer row, it leaves
  \<open>True\<close> at exactly the positions it marked; \<open>marked\<close> lists them.
\<close>

definition marked :: "Row \<Rightarrow> Row \<Rightarrow> Config \<Rightarrow> nat list" where
  "marked rowA rowB config =
     (case areEquals rowA rowB config
             (Some (replicate (max (length rowA) (length rowB)) False)) of
        (_, _, mf) \<Rightarrow>
          (case mf of None \<Rightarrow> [] | Some v \<Rightarrow> filter (\<lambda>i. v ! i) [0..<length v]))"

text \<open>Calls of \<open>update\<close> at the positions of a list that satisfy \<open>P\<close> (used in proofs).\<close>

definition marks :: "(nat \<Rightarrow> bool) \<Rightarrow> nat list \<Rightarrow> bool list option \<Rightarrow> bool list option" where
  "marks P is mf = fold (\<lambda>i mf. if P i then update mf i else mf) is mf"

text \<open>\<^verbatim>\<open>csvdiff -f=1 -k=1 -i=3 FILEA FILEB\<close>, and two files with a ragged second record.\<close>

definition ignoreThirdFlags :: flags where
  "ignoreThirdFlags =
     \<lparr> flag_n = False, flag_f = 1, flag_q = True, flag_s = '','', flag_k = ''1'',
       flag_i = ''3'', flag_c = False, flag_s_given = False, nArg = 2 \<rparr>"

definition ignoreThird :: Config where
  "ignoreThird =
     \<lparr> keys = [0], ignoredFields = [2], noHeader = False, sep = CHR '','', guess = True,
       quoted = True, format = 1, symbol = CHR ''|'', common = False \<rparr>"

definition raggedA :: "Row list" where
  "raggedA = [[''id'', ''name'', ''age''], [''1'', ''x'', ''y'']]"

definition raggedB :: "Row list" where
  "raggedB = [[''id'', ''name'', ''age''], [''1'', ''x'']]"

text \<open>The configuration that \<open>parseArgs\<close> builds from \<open>exampleFlags\<close>.\<close>

definition exampleConfig :: "bool \<Rightarrow> Config" where
  "exampleConfig c =
     \<lparr> keys = [0], ignoredFields = [], noHeader = False, sep = CHR '','', guess = True,
       quoted = True, format = 1, symbol = CHR ''|'', common = c \<rparr>"

text \<open>Two files in which the key \<open>1\<close> occurs twice in the first before the second has it.\<close>

definition duplicateA :: "Row list" where
  "duplicateA = [[''1'', ''a''], [''1'', ''b''], [''9'', ''z'']]"

definition duplicateB :: "Row list" where
  "duplicateB = [[''2'', ''x''], [''3'', ''y''], [''1'', ''c'']]"

text \<open>
  \<^verbatim>\<open>csvdiff -f=1 -k=K [-i=I] FILEA FILEB\<close>, and files whose second record is shorter
  than the first.
\<close>

definition indexFlags :: "string \<Rightarrow> string \<Rightarrow> flags" where
  "indexFlags k i =
     \<lparr> flag_n = False, flag_f = 1, flag_q = True, flag_s = '','', flag_k = k,
       flag_i = i, flag_c = False, flag_s_given = False, nArg = 2 \<rparr>"

definition indexConfig :: "Keys \<Rightarrow> int list \<Rightarrow> Config" where
  "indexConfig ks is =
     \<lparr> keys = ks, ignoredFields = is, noHeader = False, sep = CHR '','', guess = True,
       quoted = True, format = 1, symbol = CHR ''|'', common = False \<rparr>"

definition shortTail :: "Row list" where
  "shortTail = [[''a'', ''b''], [''c'']]"

subsection \<open>Notions used to state what a whole run does\<close>

text \<open>
  The key hash of a row whose key fields exist, the verdict of the comparator on two
  rows (it does not depend on the tracking vector), the rows written with a given marker
  (without the marker), the rows of one input whose key hash occurs nowhere in the other
  input, and the rows of input A that have a row of B with the same key hash from which
  they differ.
\<close>

definition keyHash :: "Config \<Rightarrow> Row \<Rightarrow> RowHash" where
  "keyHash config row = (case hashRow row (keys config) of Inl _ \<Rightarrow> 0 | Inr h \<Rightarrow> h)"

definition sameRows :: "Config \<Rightarrow> Row \<Rightarrow> Row \<Rightarrow> bool" where
  "sameRows config rowA rowB = fst (snd (areEquals rowA rowB config None))"

definition emitted :: "char \<Rightarrow> Row list \<Rightarrow> Row list" where
  "emitted s w = map (drop 1) (filter (\<lambda>row. take 1 row = [[s]]) w)"

definition unmatched :: "Config \<Rightarrow> Row list \<Rightarrow> Row list \<Rightarrow> Row list" where
  "unmatched config xs ys = filter (\<lambda>r. keyHash config r \<notin> keyHash config ` set ys) xs"

definition changed :: "Config \<Rightarrow> Row list \<Rightarrow> Row list \<Rightarrow> Row list" where
  "changed config as bs =
     filter (\<lambda>a. \<exists>b\<in>set bs. keyHash config b = keyHash config a \<and> \<not> sameRows config a b) as"

text \<open>
  The invariant of the loop after the rows \<open>pa\<close> of input A and \<open>pb\<close> of input B have
  been read (used in proofs): every pending row is stored under its own key hash; the
  pending rows of A together with the rows already written as removals are the rows of
  \<open>pa\<close> whose key hash does not occur in \<open>pb\<close>, and likewise for B and the additions; the
  three counters count the removals written, the additions written and the rows of
  \<open>pa\<close> that differ from the row of \<open>pb\<close> with the same key hash.
\<close>

definition pendingRows :: "Cache \<Rightarrow> Row list" where
  "pendingRows cache = map snd cache"

definition keyed :: "Config \<Rightarrow> Cache \<Rightarrow> bool" where
  "keyed config cache = (\<forall>kv\<in>set cache. fst kv = keyHash config (snd kv))"

definition reconciled :: "Config \<Rightarrow> Row list \<Rightarrow> Row list \<Rightarrow> state \<Rightarrow> bool" where
  "reconciled config pa pb st =
     (keyed config (cacheA st) \<and> keyed config (cacheB st)
      \<and> mset (pendingRows (cacheA st)) + mset (emitted CHR ''-'' (written st))
          = mset (unmatched config pa pb)
      \<and> mset (pendingRows (cacheB st)) + mset (emitted CHR ''+'' (written st))
          = mset (unmatched config pb pa)
      \<and> removedCount st = of_nat (length (emitted CHR ''-'' (written st)))
      \<and> addedCount st = of_nat (length (emitted CHR ''+'' (written st)))
      \<and> modifiedCount st = of_nat (length (changed config pa pb)))"

text \<open>
  A row for which every configured index is usable: it has at least one field, every
  key is, as a signed number, an index of the row, and every ignored index is below the
  number of fields.
\<close>

definition inRange :: "Config \<Rightarrow> Row \<Rightarrow> bool" where
  "inRange config row =
     (row \<noteq> []
      \<and> (\<forall>k\<in>set (keys config). 0 \<le> sint k \<and> sint k < int (length row))
      \<and> (\<forall>f\<in>set (ignoredFields config). f < int (length row)))"

text \<open>Inputs for the examples on unmatched rows and on rows with the same key.\<close>

definition tailA :: "Row list" where
  "tailA = [[''id'', ''name''], [''1'', ''a''], [''2'', ''b'']]"

definition tailB :: "Row list" where
  "tailB = [[''id'', ''name''], [''1'', ''a'']]"

definition lostA :: "Row list" where
  "lostA = [[''1'', ''a''], [''1'', ''b'']]"

definition lostB :: "Row list" where
  "lostB = [[''2'', ''x''], [''3'', ''y'']]"

definition sameKeyA :: "Row list" where
  "sameKeyA = [[''1'', ''a''], [''1'', ''b'']]"

definition sameKeyB :: "Row list" where
  "sameKeyB = [[''1'', ''b''], [''1'', ''a'']]"

section \<open>Properties\<close>

subsection \<open>Exit status\<close>

lemma summary_status:
  assumes "summary st1 = Inr (status, st)"
  shows "addedCount st = addedCount st1 \<and> removedCount st = removedCount st1
       \<and> modifiedCount st = modifiedCount st1
       \<and> status = (if addedCount st1 \<noteq> 0 \<or> removedCount st1 \<noteq> 0 \<or> modifiedCount st1 \<noteq> 0
                   then 1 else 0)"
  using assms
  by (auto simp: summary_def Let_def word_greater_zero_iff split: if_splits sum.splits)

text \<open>
  Claim C2. A run that ends without a fault (\<open>main\<close> returns \<open>Inr\<close>: no command-line
  fault, no read fault, no out-of-range index) exits with status 1 if the sum of the
  added, removed and modified counters is greater than zero, and with status 0 otherwise.
  The counters are read as the natural numbers they hold.
\<close>

theorem exit_status_law:
  assumes "main fl stdoutIsFile readerA readerB = Inr (status, st)"
  shows "(0 < unat (addedCount st) + unat (removedCount st) + unat (modifiedCount st)
            \<longrightarrow> status = 1)
       \<and> (\<not> 0 < unat (addedCount st) + unat (removedCount st) + unat (modifiedCount st)
            \<longrightarrow> status = 0)"
proof -
  from assms obtain st1 where "summary st1 = Inr (status, st)"
    by (auto simp: main_def run_def Let_def split: sum.splits)
  from summary_status [OF this] show ?thesis
    by (auto simp: unat_eq_0)
qed

theorem exit_status_law_witness:
  "\<exists>st. main (exampleFlags False) False (fileOf exampleA) (fileOf exampleB) = Inr (1, st)
      \<and> 0 < unat (addedCount st) + unat (removedCount st) + unat (modifiedCount st)"
proof -
  have "case main (exampleFlags False) False (fileOf exampleA) (fileOf exampleB) of
          Inl _ \<Rightarrow> False | Inr (status, st) \<Rightarrow> status = 1"
    by code_simp
  then obtain st where
    r: "main (exampleFlags False) False (fileOf exampleA) (fileOf exampleB) = Inr (1, st)"
    by (auto split: sum.splits)
  from exit_status_law [OF r] r show ?thesis by auto
qed

subsection \<open>The comparator\<close>

lemma marks_None [simp]: "marks P is None = None"
  by (induction "is") (auto simp: marks_def update_def)

lemma marks_Some:
  "\<exists>v'. marks P is (Some v) = Some v' \<and> length v' = length v
        \<and> (\<forall>j < length v. v' ! j = (v ! j \<or> (j \<in> set is \<and> P j)))"
proof (induction "is" arbitrary: v)
  case Nil
  show ?case by (simp add: marks_def)
next
  case (Cons i "is")
  let ?w = "if P i \<and> i < length v then v[i := True] else v"
  have step: "marks P (i # is) (Some v) = marks P is (Some ?w)"
    by (simp add: marks_def update_def)
  from Cons.IH [of ?w] obtain v' where v': "marks P is (Some ?w) = Some v'"
    "length v' = length ?w" "\<forall>j < length ?w. v' ! j = (?w ! j \<or> (j \<in> set is \<and> P j))"
    by blast
  have "\<forall>j < length v. v' ! j = (v ! j \<or> (j \<in> set (i # is) \<and> P j))"
    using v'(3) by (auto simp: nth_list_update)
  with v' step show ?case by auto
qed

lemma compareField_snd:
  "snd (compareField c A B m i (rd, sm, mf))
     = (sm \<and> (ignored c i \<or> A ! i = B ! i),
        if \<not> ignored c i \<and> A ! i \<noteq> B ! i then update mf i else mf)"
  by (simp add: Let_def)

lemma padField_snd:
  "snd (padField c A B lg i (rd, sm, mf))
     = (sm, if \<not> ignored c i \<and> (lg = 1 \<or> lg = 2) then update mf i else mf)"
  by simp

lemma fold_compareField:
  "snd (fold (compareField c A B m) is s)
     = (fst (snd s) \<and> (\<forall>i\<in>set is. ignored c i \<or> A ! i = B ! i),
        marks (\<lambda>i. \<not> ignored c i \<and> A ! i \<noteq> B ! i) is (snd (snd s)))"
proof (induction "is" arbitrary: s)
  case Nil
  show ?case by (simp add: marks_def)
next
  case (Cons i "is")
  obtain rd sm mf where s: "s = (rd, sm, mf)" by (cases s) auto
  have "fold (compareField c A B m) (i # is) s
        = fold (compareField c A B m) is (compareField c A B m i (rd, sm, mf))"
    by (simp add: s del: compareField.simps)
  then show ?case
    using Cons.IH [of "compareField c A B m i (rd, sm, mf)"] compareField_snd [of c A B m i rd sm mf]
    by (simp add: s marks_def del: compareField.simps)
qed

lemma fold_padField:
  "snd (fold (padField c A B lg) is s)
     = (fst (snd s), marks (\<lambda>i. \<not> ignored c i \<and> (lg = 1 \<or> lg = 2)) is (snd (snd s)))"
proof (induction "is" arbitrary: s)
  case Nil
  show ?case by (simp add: marks_def)
next
  case (Cons i "is")
  obtain rd sm mf where s: "s = (rd, sm, mf)" by (cases s) auto
  have "fold (padField c A B lg) (i # is) s
        = fold (padField c A B lg) is (padField c A B lg i (rd, sm, mf))"
    by (simp add: s del: padField.simps)
  then show ?case
    using Cons.IH [of "padField c A B lg i (rd, sm, mf)"] padField_snd [of c A B lg i rd sm mf]
    by (simp add: s marks_def del: padField.simps)
qed


text \<open>The verdict and the tracking vector of the comparator, in closed form.\<close>

lemma areEquals_snd:
  "snd (areEquals A B c mf) =
     (length A = length B \<and> (\<forall>i < length A. ignored c i \<or> A ! i = B ! i),
      marks (\<lambda>i. \<not> ignored c i) [min (length A) (length B)..<max (length A) (length B)]
        (marks (\<lambda>i. \<not> ignored c i \<and> A ! i \<noteq> B ! i) [0..<min (length A) (length B)] mf))"
proof -
  consider (gt) "length A > length B" | (lt) "length A < length B" | (eq) "length A = length B"
    by linarith
  then show ?thesis
  proof cases
    case gt
    then show ?thesis
      by (simp add: areEquals_def Let_def fold_padField fold_compareField min_def max_def)
  next
    case lt
    then show ?thesis
      by (simp add: areEquals_def Let_def fold_padField fold_compareField min_def max_def)
  next
    case eq
    then show ?thesis
      by (auto simp: areEquals_def Let_def fold_padField fold_compareField marks_def)
  qed
qed

lemma areEquals_same:
  "fst (snd (areEquals A B c mf))
     = (length A = length B \<and> (\<forall>i < length A. ignored c i \<or> A ! i = B ! i))"
  by (simp add: areEquals_snd)

lemma marked_iff:
  "i \<in> set (marked A B c) \<longleftrightarrow>
     i < max (length A) (length B) \<and> \<not> ignored c i
     \<and> (i < min (length A) (length B) \<longrightarrow> A ! i \<noteq> B ! i)"
proof -
  let ?n = "max (length A) (length B)" and ?m = "min (length A) (length B)"
  let ?P = "\<lambda>i. \<not> ignored c i \<and> A ! i \<noteq> B ! i" and ?Q = "\<lambda>i. \<not> ignored c i"
  obtain v1 where v1: "marks ?P [0..<?m] (Some (replicate ?n False)) = Some v1"
    "length v1 = ?n" "\<forall>j < ?n. v1 ! j = (replicate ?n False ! j \<or> (j \<in> set [0..<?m] \<and> ?P j))"
    using marks_Some [of ?P "[0..<?m]" "replicate ?n False"] by auto
  obtain v2 where v2: "marks ?Q [?m..<?n] (Some v1) = Some v2"
    "length v2 = ?n" "\<forall>j < ?n. v2 ! j = (v1 ! j \<or> (j \<in> set [?m..<?n] \<and> ?Q j))"
    using marks_Some [of ?Q "[?m..<?n]" v1] v1(2) by auto
  have "snd (snd (areEquals A B c (Some (replicate ?n False)))) = Some v2"
    by (simp add: areEquals_snd v1 v2)
  then have "marked A B c = filter (\<lambda>i. v2 ! i) [0..<?n]"
    by (auto simp: marked_def v2(2) split: prod.splits)
  then show ?thesis using v1(3) v2(3) by auto
qed

text \<open>
  Claim C3, as amended. For every pair of rows and every ignored-field set: an ignored
  position is never marked as changed; for rows with the same number of fields the
  comparator reports the pair as equal exactly when no position was marked; rows with
  different numbers of fields are always reported as unequal (whether or not a position
  was marked); and two rows with the same number of fields whose differing positions all
  lie in the ignored set are reported as equal.
\<close>

theorem comparator_equal_iff_unmarked:
  "(\<forall>i \<in> set (marked rowA rowB config). \<not> ignored config i)
   \<and> (length rowA = length rowB \<longrightarrow>
        (fst (snd (areEquals rowA rowB config mf)) \<longleftrightarrow> marked rowA rowB config = []))
   \<and> (length rowA \<noteq> length rowB \<longrightarrow> \<not> fst (snd (areEquals rowA rowB config mf)))
   \<and> (length rowA = length rowB \<and> (\<forall>i < length rowA. rowA ! i \<noteq> rowB ! i \<longrightarrow> ignored config i)
        \<longrightarrow> fst (snd (areEquals rowA rowB config mf)))"
proof -
  have 1: "\<forall>i \<in> set (marked rowA rowB config). \<not> ignored config i"
    by (simp add: marked_iff)
  have "marked rowA rowB config = [] \<longleftrightarrow> (\<forall>i. i \<notin> set (marked rowA rowB config))"
    by (cases "marked rowA rowB config") auto
  then have 2: "length rowA = length rowB \<Longrightarrow>
      (fst (snd (areEquals rowA rowB config mf)) \<longleftrightarrow> marked rowA rowB config = [])"
    unfolding marked_iff areEquals_same by auto
  show ?thesis using 1 2 by (auto simp: areEquals_same)
qed

theorem comparator_equal_iff_unmarked_witness:
  "length [''1'', ''x'', ''y''] = length [''1'', ''x'', ''z'']
   \<and> [''1'', ''x'', ''y''] ! 2 \<noteq> [''1'', ''x'', ''z''] ! 2 \<and> ignored ignoreThird 2
   \<and> fst (snd (areEquals [''1'', ''x'', ''y''] [''1'', ''x'', ''z''] ignoreThird None))
   \<and> marked [''1'', ''x'', ''y''] [''1'', ''x'', ''z''] ignoreThird = []
   \<and> marked [''1'', ''x'', ''y''] [''1'', ''w'', ''z''] ignoreThird = [1]
   \<and> \<not> fst (snd (areEquals [''1'', ''x'', ''y''] [''1'', ''w'', ''z''] ignoreThird None))"
proof -
  have h: "\<forall>i < length [''1'', ''x'', ''y''].
         [''1'', ''x'', ''y''] ! i = [''1'', ''x'', ''z''] ! i \<or> ignored ignoreThird i"
    by (auto simp: less_Suc_eq ignored_def ignoreThird_def)
  have g: "ignored ignoreThird 2"
    by (simp add: ignored_def ignoreThird_def)
  have m: "marked [''1'', ''x'', ''y''] [''1'', ''w'', ''z''] ignoreThird = [1]"
    by code_simp
  from h g m
    comparator_equal_iff_unmarked [of "[''1'', ''x'', ''y'']" "[''1'', ''x'', ''z'']" ignoreThird None]
    comparator_equal_iff_unmarked [of "[''1'', ''x'', ''y'']" "[''1'', ''w'', ''z'']" ignoreThird None]
  show ?thesis by auto
qed

text \<open>
  The claim as stated fails on rows of different lengths: with field 3 ignored, the rows
  \<open>1,x,y\<close> and \<open>1,x\<close> differ only at the ignored position 3 and no position is marked,
  yet the comparator reports them as unequal. In a run that reads these rows after an
  aligned first pair, the pair is counted as a modification.
\<close>

theorem comparator_ragged_counterexample:
  "marked [''1'', ''x'', ''y''] [''1'', ''x''] ignoreThird = []
   \<and> \<not> fst (snd (areEquals [''1'', ''x'', ''y''] [''1'', ''x''] ignoreThird None))
   \<and> parseArgs ignoreThirdFlags False = Inr ignoreThird
   \<and> (case main ignoreThirdFlags False (fileOf raggedA) (fileOf raggedB) of
         Inl _ \<Rightarrow> False
       | Inr (status, st) \<Rightarrow> status = 1 \<and> modifiedCount st = 1
           \<and> written st = [[''='', ''id'', ''name'', ''age''], [''#'', ''1'', ''x'', []]])"
  by code_simp

subsection \<open>Equal pairs\<close>

lemma fold_compareField_same:
  assumes "\<forall>i\<in>set is. ignored c i \<or> A ! i = B ! i"
  shows "fold (compareField c A B m) is (rd, True, mf) = (rd, True, mf)"
  using assms by (induction "is") auto

lemma areEquals_same_result:
  assumes "fst (snd (areEquals A B c mf))"
  shows "areEquals A B c mf = ([], True, mf)"
proof -
  from assms have eq: "length A = length B"
    and nd: "\<forall>i < length A. ignored c i \<or> A ! i = B ! i"
    by (simp_all add: areEquals_same)
  from nd have "\<forall>i\<in>set [0..<length A]. ignored c i \<or> A ! i = B ! i" by simp
  from fold_compareField_same [OF this] eq show ?thesis
    by (simp add: areEquals_def Let_def)
qed

lemma areEquals_refl: "areEquals A A c mf = ([], True, mf)"
  by (rule areEquals_same_result) (simp add: areEquals_same)

text \<open>
  Claim C9, as amended. At each of the three places where two rows are compared (the
  aligned pair, row A against a pending row of B, row B against a pending row of A), when
  the comparator reports the rows as equal it returns no delta row, the modified counter
  is not changed, and the only row that can be written is one copy of the row with the
  marker \<open>=\<close>. That copy is written exactly when unchanged rows were requested
  (\<open>common\<close>), or, at an aligned pair, when this is the pair on which the header is
  captured and headers are enabled: the header row is echoed with \<open>=\<close> whether or not
  unchanged rows were requested.
\<close>

theorem equal_pair_output:
  "(fst (snd (areEquals rowA rowB config (modifiedFields st))) \<longrightarrow>
       fst (areEquals rowA rowB config (modifiedFields st)) = []
     \<and> written (aligned config rowA rowB st)
         = written st @ (if common config \<or> (first st \<and> \<not> noHeader config)
                         then [delta rowA CHR ''=''] else [])
     \<and> modifiedCount (aligned config rowA rowB st) = modifiedCount st)
   \<and> (map_of (cacheB st) hashA = Some altB
        \<and> fst (snd (areEquals rowA altB config (modifiedFields st))) \<longrightarrow>
       written (probeA config rowA hashA st)
         = written st @ (if common config then [delta rowA CHR ''=''] else [])
     \<and> modifiedCount (probeA config rowA hashA st) = modifiedCount st)
   \<and> (map_of (cacheA st) hashB = Some altA
        \<and> fst (snd (areEquals altA rowB config (modifiedFields st))) \<longrightarrow>
       written (probeB config rowB hashB st)
         = written st @ (if common config then [delta rowB CHR ''=''] else [])
     \<and> modifiedCount (probeB config rowB hashB st) = modifiedCount st)"
proof (intro conjI impI)
  assume "fst (snd (areEquals rowA rowB config (modifiedFields st)))"
  then have e: "areEquals rowA rowB config (modifiedFields st) = ([], True, modifiedFields st)"
    by (rule areEquals_same_result)
  show "fst (areEquals rowA rowB config (modifiedFields st)) = []"
    by (simp add: e)
  show "written (aligned config rowA rowB st)
         = written st @ (if common config \<or> (first st \<and> \<not> noHeader config)
                         then [delta rowA CHR ''=''] else [])"
    by (simp add: aligned_def e Let_def writeRow_def)
  show "modifiedCount (aligned config rowA rowB st) = modifiedCount st"
    by (simp add: aligned_def e Let_def writeRow_def)
next
  assume "map_of (cacheB st) hashA = Some altB
        \<and> fst (snd (areEquals rowA altB config (modifiedFields st)))"
  then have f: "map_of (cacheB st) hashA = Some altB"
    and e: "areEquals rowA altB config (modifiedFields st) = ([], True, modifiedFields st)"
    by (simp_all add: areEquals_same_result)
  show "written (probeA config rowA hashA st)
         = written st @ (if common config then [delta rowA CHR ''=''] else [])"
    by (simp add: probeA_def searchCache_def f e fields_def Let_def writeRow_def)
  show "modifiedCount (probeA config rowA hashA st) = modifiedCount st"
    by (simp add: probeA_def searchCache_def f e fields_def Let_def writeRow_def)
next
  assume "map_of (cacheA st) hashB = Some altA
        \<and> fst (snd (areEquals altA rowB config (modifiedFields st)))"
  then have f: "map_of (cacheA st) hashB = Some altA"
    and e: "areEquals altA rowB config (modifiedFields st) = ([], True, modifiedFields st)"
    by (simp_all add: areEquals_same_result)
  show "written (probeB config rowB hashB st)
         = written st @ (if common config then [delta rowB CHR ''=''] else [])"
    by (simp add: probeB_def searchCache_def f e fields_def Let_def writeRow_def)
  show "modifiedCount (probeB config rowB hashB st) = modifiedCount st"
    by (simp add: probeB_def searchCache_def f e fields_def Let_def writeRow_def)
qed


theorem equal_pair_output_witness:
  "fst (snd (areEquals [''id'', ''name''] [''id'', ''name''] (exampleConfig False)
              (modifiedFields initial)))
   \<and> written (aligned (exampleConfig False) [''id'', ''name''] [''id'', ''name''] initial)
        = [[''='', ''id'', ''name'']]
   \<and> map_of (cacheB (initial\<lparr>cacheB := [(7, [''1'', ''a''])]\<rparr>)) 7 = Some [''1'', ''a'']
   \<and> written (probeA (exampleConfig True) [''1'', ''a''] 7 (initial\<lparr>cacheB := [(7, [''1'', ''a''])]\<rparr>))
        = [[''='', ''1'', ''a'']]
   \<and> map_of (cacheA (initial\<lparr>cacheA := [(7, [''1'', ''a''])]\<rparr>)) 7 = Some [''1'', ''a'']
   \<and> written (probeB (exampleConfig False) [''1'', ''a''] 7 (initial\<lparr>cacheA := [(7, [''1'', ''a''])]\<rparr>))
        = []"
proof -
  have 1: "fst (snd (areEquals [''id'', ''name''] [''id'', ''name''] (exampleConfig False)
              (modifiedFields initial)))"
    by code_simp
  have 2: "map_of (cacheB (initial\<lparr>cacheB := [(7, [''1'', ''a''])]\<rparr>)) 7 = Some [''1'', ''a'']
     \<and> fst (snd (areEquals [''1'', ''a''] [''1'', ''a''] (exampleConfig True)
              (modifiedFields (initial\<lparr>cacheB := [(7, [''1'', ''a''])]\<rparr>))))"
    by code_simp
  have 3: "map_of (cacheA (initial\<lparr>cacheA := [(7, [''1'', ''a''])]\<rparr>)) 7 = Some [''1'', ''a'']
     \<and> fst (snd (areEquals [''1'', ''a''] [''1'', ''a''] (exampleConfig False)
              (modifiedFields (initial\<lparr>cacheA := [(7, [''1'', ''a''])]\<rparr>))))"
    by code_simp
  from 1 equal_pair_output [where rowA = "[''id'', ''name'']" and rowB = "[''id'', ''name'']"
        and config = "exampleConfig False" and st = initial]
  have a: "written (aligned (exampleConfig False) [''id'', ''name''] [''id'', ''name''] initial)
        = [[''='', ''id'', ''name'']]"
    by (simp add: initial_def exampleConfig_def delta_def)
  from 2 equal_pair_output [where rowA = "[''1'', ''a'']" and config = "exampleConfig True"
        and st = "initial\<lparr>cacheB := [(7, [''1'', ''a''])]\<rparr>" and hashA = 7
        and altB = "[''1'', ''a'']"]
  have b: "written (probeA (exampleConfig True) [''1'', ''a''] 7 (initial\<lparr>cacheB := [(7, [''1'', ''a''])]\<rparr>))
        = [[''='', ''1'', ''a'']]"
    by (simp add: initial_def exampleConfig_def delta_def)
  from 3 equal_pair_output [where rowB = "[''1'', ''a'']" and config = "exampleConfig False"
        and st = "initial\<lparr>cacheA := [(7, [''1'', ''a''])]\<rparr>" and hashB = 7
        and altA = "[''1'', ''a'']"]
  have c: "written (probeB (exampleConfig False) [''1'', ''a''] 7 (initial\<lparr>cacheA := [(7, [''1'', ''a''])]\<rparr>))
        = []"
    by (simp add: initial_def exampleConfig_def delta_def)
  from 1 2 3 a b c show ?thesis by simp
qed

text \<open>
  The claim as stated fails on the header row: with unchanged rows not requested
  (\<^verbatim>\<open>-c\<close> absent) and headers enabled, two files that consist of the same single
  row produce that row with the marker \<open>=\<close>.
\<close>

theorem header_echo_counterexample:
  "parseArgs (exampleFlags False) False = Inr (exampleConfig False)
   \<and> \<not> common (exampleConfig False)
   \<and> (case main (exampleFlags False) False (fileOf [[''id'', ''name'']]) (fileOf [[''id'', ''name'']]) of
         Inl _ \<Rightarrow> False
       | Inr (status, st) \<Rightarrow> status = 0 \<and> written st = [[''='', ''id'', ''name'']])"
  by code_simp

subsection \<open>Duplicate keys\<close>

lemma copy_onto_fresh: "copy (replicate (length src) z) src = src"
  by (simp add: copy_def)

lemma deepCopy_same: "deepCopy row = row"
  by (simp add: deepCopy_def copy_onto_fresh)

lemma map_of_cacheStore:
  "map_of (cacheStore key row cache) k = (if k = key then Some row else map_of cache k)"
  by (induction cache) auto

lemma map_of_cacheDelete:
  "map_of (cacheDelete key cache) k = (if k = key then None else map_of cache k)"
  by (induction cache) (auto simp: cacheDelete_def)

text \<open>
  Claim C5. When row A arrives with a key hash that has no pending row of B but already
  has a pending row of A, storing it replaces the pending row, exactly one duplicate-key
  warning for row A is appended to the diagnostics, nothing is written to the delta
  stream, and afterwards a lookup of that hash by the other side returns the new row and
  leaves no row under the hash. The same holds with the sides exchanged. The last
  conjunct places the two probes in the loop: an iteration that reads two rows with
  different key hashes (and passes the row check while it is still made) continues with
  \<open>probeA\<close> followed by \<open>probeB\<close>.
\<close>

theorem duplicate_key_overwrites:
  "(map_of (cacheB st) hashA = None \<and> map_of (cacheA st) hashA = Some old \<longrightarrow>
      diags (probeA config rowA hashA st) = diags st @ [DuplicateFirst rowA]
    \<and> written (probeA config rowA hashA st) = written st
    \<and> cacheB (probeA config rowA hashA st) = cacheB st
    \<and> cacheA (probeA config rowA hashA st) = cacheStore hashA rowA (cacheA st)
    \<and> map_of (cacheA (probeA config rowA hashA st)) = (map_of (cacheA st))(hashA \<mapsto> rowA)
    \<and> fst (searchCache (cacheA (probeA config rowA hashA st)) hashA) = Some rowA
    \<and> map_of (snd (snd (snd (searchCache (cacheA (probeA config rowA hashA st)) hashA)))) hashA = None)
   \<and> (map_of (cacheA st) hashB = None \<and> map_of (cacheB st) hashB = Some old \<longrightarrow>
      diags (probeB config rowB hashB st) = diags st @ [DuplicateSecond rowB]
    \<and> written (probeB config rowB hashB st) = written st
    \<and> cacheA (probeB config rowB hashB st) = cacheA st
    \<and> cacheB (probeB config rowB hashB st) = cacheStore hashB rowB (cacheB st)
    \<and> map_of (cacheB (probeB config rowB hashB st)) = (map_of (cacheB st))(hashB \<mapsto> rowB)
    \<and> fst (searchCache (cacheB (probeB config rowB hashB st)) hashB) = Some rowB
    \<and> map_of (snd (snd (snd (searchCache (cacheB (probeB config rowB hashB st)) hashB)))) hashB = None)
   \<and> (hashRow rowA (keys config) = Inr hashA \<and> hashRow rowB (keys config) = Inr hashB
        \<and> hashA \<noteq> hashB \<and> (first st \<longrightarrow> checkRow (Some rowA) (Some rowB) config = Inr ()) \<longrightarrow>
      body config (Some rowA) (Some rowB) st
        = Inr (probeB config rowB hashB
                 (probeA config rowA hashA (st\<lparr>totalCount := totalCount st + 1\<rparr>))))"
proof (intro conjI impI)
  assume "map_of (cacheB st) hashA = None \<and> map_of (cacheA st) hashA = Some old"
  then have p: "probeA config rowA hashA st
      = st\<lparr>diags := diags st @ [DuplicateFirst rowA], cacheA := cacheStore hashA rowA (cacheA st)\<rparr>"
    by (simp add: probeA_def searchCache_def Let_def deepCopy_same)
  show "diags (probeA config rowA hashA st) = diags st @ [DuplicateFirst rowA]"
    and "written (probeA config rowA hashA st) = written st"
    and "cacheB (probeA config rowA hashA st) = cacheB st"
    and "cacheA (probeA config rowA hashA st) = cacheStore hashA rowA (cacheA st)"
    by (simp_all add: p)
  show "map_of (cacheA (probeA config rowA hashA st)) = (map_of (cacheA st))(hashA \<mapsto> rowA)"
    by (rule ext) (simp add: p map_of_cacheStore)
  show "fst (searchCache (cacheA (probeA config rowA hashA st)) hashA) = Some rowA"
    by (simp add: p searchCache_def map_of_cacheStore)
  show "map_of (snd (snd (snd (searchCache (cacheA (probeA config rowA hashA st)) hashA)))) hashA = None"
    by (simp add: p searchCache_def map_of_cacheStore map_of_cacheDelete)
next
  assume "map_of (cacheA st) hashB = None \<and> map_of (cacheB st) hashB = Some old"
  then have p: "probeB config rowB hashB st
      = st\<lparr>diags := diags st @ [DuplicateSecond rowB], cacheB := cacheStore hashB rowB (cacheB st)\<rparr>"
    by (simp add: probeB_def searchCache_def Let_def deepCopy_same)
  show "diags (probeB config rowB hashB st) = diags st @ [DuplicateSecond rowB]"
    and "written (probeB config rowB hashB st) = written st"
    and "cacheA (probeB config rowB hashB st) = cacheA st"
    and "cacheB (probeB config rowB hashB st) = cacheStore hashB rowB (cacheB st)"
    by (simp_all add: p)
  show "map_of (cacheB (probeB config rowB hashB st)) = (map_of (cacheB st))(hashB \<mapsto> rowB)"
    by (rule ext) (simp add: p map_of_cacheStore)
  show "fst (searchCache (cacheB (probeB config rowB hashB st)) hashB) = Some rowB"
    by (simp add: p searchCache_def map_of_cacheStore)
  show "map_of (snd (snd (snd (searchCache (cacheB (probeB config rowB hashB st)) hashB)))) hashB = None"
    by (simp add: p searchCache_def map_of_cacheStore map_of_cacheDelete)
next
  assume "hashRow rowA (keys config) = Inr hashA \<and> hashRow rowB (keys config) = Inr hashB
        \<and> hashA \<noteq> hashB \<and> (first st \<longrightarrow> checkRow (Some rowA) (Some rowB) config = Inr ())"
  then show "body config (Some rowA) (Some rowB) st
        = Inr (probeB config rowB hashB
                 (probeA config rowA hashA (st\<lparr>totalCount := totalCount st + 1\<rparr>)))"
    by (simp add: body_def pair_def fields_def)
qed

theorem duplicate_key_overwrites_witness:
  "map_of (cacheB (initial\<lparr>cacheA := [(12638134423997487868, [''1'', ''a''])]\<rparr>))
      12638134423997487868 = None
   \<and> map_of (cacheA (initial\<lparr>cacheA := [(12638134423997487868, [''1'', ''a''])]\<rparr>))
      12638134423997487868 = Some [''1'', ''a'']
   \<and> hashRow [''1'', ''b''] (keys (exampleConfig False)) = Inr 12638134423997487868
   \<and> diags (probeA (exampleConfig False) [''1'', ''b''] 12638134423997487868
               (initial\<lparr>cacheA := [(12638134423997487868, [''1'', ''a''])]\<rparr>))
        = [DuplicateFirst [''1'', ''b'']]
   \<and> cacheA (probeA (exampleConfig False) [''1'', ''b''] 12638134423997487868
               (initial\<lparr>cacheA := [(12638134423997487868, [''1'', ''a''])]\<rparr>))
        = [(12638134423997487868, [''1'', ''b''])]
   \<and> (case main (exampleFlags False) False (fileOf duplicateA) (fileOf duplicateB) of
         Inl _ \<Rightarrow> False
       | Inr (status, st) \<Rightarrow>
           diags st = [DuplicateFirst [''1'', ''b''], Total 3 1 2 1, ModifiedFields []]
         \<and> written st = [[''#'', ''1'', ''b|-|c''], [''-'', ''9'', ''z''],
                          [''+'', ''2'', ''x''], [''+'', ''3'', ''y'']])"
proof -
  let ?st = "initial\<lparr>cacheA := [(12638134423997487868, [''1'', ''a''])]\<rparr>"
  have h: "map_of (cacheB ?st) 12638134423997487868 = None
         \<and> map_of (cacheA ?st) 12638134423997487868 = Some [''1'', ''a'']"
    by code_simp
  have k: "hashRow [''1'', ''b''] (keys (exampleConfig False)) = Inr 12638134423997487868"
    by code_simp
  have m: "case main (exampleFlags False) False (fileOf duplicateA) (fileOf duplicateB) of
         Inl _ \<Rightarrow> False
       | Inr (status, st) \<Rightarrow>
           diags st = [DuplicateFirst [''1'', ''b''], Total 3 1 2 1, ModifiedFields []]
         \<and> written st = [[''#'', ''1'', ''b|-|c''], [''-'', ''9'', ''z''],
                          [''+'', ''2'', ''x''], [''+'', ''3'', ''y'']]"
    by code_simp
  from h duplicate_key_overwrites [where st = ?st and hashA = 12638134423997487868
      and old = "[''1'', ''a'']" and config = "exampleConfig False" and rowA = "[''1'', ''b'']"]
  have "diags (probeA (exampleConfig False) [''1'', ''b''] 12638134423997487868 ?st)
          = [DuplicateFirst [''1'', ''b'']]
      \<and> cacheA (probeA (exampleConfig False) [''1'', ''b''] 12638134423997487868 ?st)
          = [(12638134423997487868, [''1'', ''b''])]"
    by (simp add: initial_def)
  with h k m show ?thesis by simp
qed

subsection \<open>Index checks\<close>

text \<open>
  A key is stored as the user's index minus one in 64 bits and is compared with the
  field counts as a signed number: for a user's index from 1 to \<open>2^63\<close> that number is
  the index minus one, for the user's index 0 it is \<open>-1\<close>.
\<close>

lemma key_of_user_index:
  assumes "1 \<le> u" "u \<le> 2 ^ 63"
  shows "sint (word_of_int u - 1 :: 64 word) = u - 1"
proof -
  have "signed_take_bit 63 (u - 1) = u - 1"
    using assms by (intro signed_take_bit_int_eq_self) auto
  then have "sint (word_of_int (u - 1) :: 64 word) = u - 1"
    by (simp only: signed_of_int) simp
  moreover have "(word_of_int u - 1 :: 64 word) = word_of_int (u - 1)"
    by simp
  ultimately show ?thesis by (simp only:)
qed

lemma key_of_user_index_zero: "sint (word_of_int 0 - 1 :: 64 word) = - 1"
  by simp

lemma len_nonneg: "0 \<le> len row"
  by (simp add: len_def split: option.splits)

lemma checkKeys_fails:
  assumes "\<exists>key\<in>set ks. sint key \<ge> len rowA \<or> sint key \<ge> len rowB"
  shows "\<exists>key\<in>set ks. (sint key \<ge> len rowA \<or> sint key \<ge> len rowB)
           \<and> checkKeys ks rowA rowB = Inl (KeyIndexOutOfRange (key + 1))"
  using assms by (induction ks) auto

lemma checkKeys_passes:
  assumes "\<forall>key\<in>set ks. sint key < len rowA \<and> sint key < len rowB"
  shows "checkKeys ks rowA rowB = Inr ()"
  using assms by (induction ks) auto

lemma checkIgnored_fails:
  assumes "\<exists>f\<in>set fs. f \<ge> len rowA \<or> f \<ge> len rowB"
  shows "\<exists>f\<in>set fs. (f \<ge> len rowA \<or> f \<ge> len rowB)
           \<and> checkIgnored fs rowA rowB
               = Inl (IgnoredFieldOutOfRange (sint (word_of_int f + 1 :: 64 word)))"
  using assms by (induction fs) auto

lemma checkIgnored_passes:
  assumes "\<forall>f\<in>set fs. f < len rowA \<and> f < len rowB"
  shows "checkIgnored fs rowA rowB = Inr ()"
  using assms by (induction fs) auto

lemma loop_checkRow_fails:
  assumes "first st" "\<not> (eofA \<and> eofB)"
    and "readRow readerA eofA = Inr (rowA, eofA', readerA')"
    and "readRow readerB eofB = Inr (rowB, eofB', readerB')"
    and "rowA \<noteq> None \<or> rowB \<noteq> None"
    and "checkRow rowA rowB config = Inl e"
  shows "loop config readerA readerB eofA eofB st = Inl (e, written st)"
  using assms by (subst loop.simps) (auto simp: body_def)

text \<open>
  Claim C7, as amended. While no aligned pair has been classified yet (\<open>first\<close> is still
  set), for every iteration of the loop that reads at least one row: if some configured
  key, read as a signed number, is not below the number of fields of row A or of row B
  (a missing row has no fields), the run is aborted with \<open>Key index n out of range\<close>
  where \<open>n\<close> is such a key plus one, its index counted from 1; if all keys are below
  both field counts and some ignored index is not, the run is aborted with
  \<open>Ignored field n out of range\<close> for such an index. In both cases the rows written are
  those written before this iteration. (Keys given by the user as 1 to \<open>2^63\<close> are the
  ones whose signed reading is not negative, see \<open>key_of_user_index\<close>; the statement
  says nothing about the user's index 0.)
\<close>

theorem out_of_range_index_aborts:
  "first st \<and> \<not> (eofA \<and> eofB)
   \<and> readRow readerA eofA = Inr (rowA, eofA', readerA')
   \<and> readRow readerB eofB = Inr (rowB, eofB', readerB')
   \<and> (rowA \<noteq> None \<or> rowB \<noteq> None) \<longrightarrow>
     ((\<exists>key\<in>set (keys config). sint key \<ge> len rowA \<or> sint key \<ge> len rowB) \<longrightarrow>
        (\<exists>key\<in>set (keys config). (sint key \<ge> len rowA \<or> sint key \<ge> len rowB)
           \<and> loop config readerA readerB eofA eofB st
                = Inl (KeyIndexOutOfRange (key + 1), written st)))
   \<and> ((\<forall>key\<in>set (keys config). sint key < len rowA \<and> sint key < len rowB)
        \<and> (\<exists>f\<in>set (ignoredFields config). f \<ge> len rowA \<or> f \<ge> len rowB) \<longrightarrow>
        (\<exists>f\<in>set (ignoredFields config). (f \<ge> len rowA \<or> f \<ge> len rowB)
           \<and> loop config readerA readerB eofA eofB st
                = Inl (IgnoredFieldOutOfRange (sint (word_of_int f + 1 :: 64 word)), written st)))"
proof (intro impI conjI)
  assume a: "first st \<and> \<not> (eofA \<and> eofB)
   \<and> readRow readerA eofA = Inr (rowA, eofA', readerA')
   \<and> readRow readerB eofB = Inr (rowB, eofB', readerB')
   \<and> (rowA \<noteq> None \<or> rowB \<noteq> None)"
  {
    assume "\<exists>key\<in>set (keys config). sint key \<ge> len rowA \<or> sint key \<ge> len rowB"
    from checkKeys_fails [OF this] obtain key where k: "key \<in> set (keys config)"
      "sint key \<ge> len rowA \<or> sint key \<ge> len rowB"
      "checkKeys (keys config) rowA rowB = Inl (KeyIndexOutOfRange (key + 1))"
      by blast
    then have "checkRow rowA rowB config = Inl (KeyIndexOutOfRange (key + 1))"
      by (simp add: checkRow_def)
    with a have "loop config readerA readerB eofA eofB st
                = Inl (KeyIndexOutOfRange (key + 1), written st)"
      by (intro loop_checkRow_fails) auto
    with k show "\<exists>key\<in>set (keys config). (sint key \<ge> len rowA \<or> sint key \<ge> len rowB)
           \<and> loop config readerA readerB eofA eofB st
                = Inl (KeyIndexOutOfRange (key + 1), written st)"
      by blast
  }
  {
    assume b: "(\<forall>key\<in>set (keys config). sint key < len rowA \<and> sint key < len rowB)
        \<and> (\<exists>f\<in>set (ignoredFields config). f \<ge> len rowA \<or> f \<ge> len rowB)"
    then have "\<exists>f\<in>set (ignoredFields config). f \<ge> len rowA \<or> f \<ge> len rowB" by blast
    from checkIgnored_fails [OF this] obtain f where f: "f \<in> set (ignoredFields config)"
      "f \<ge> len rowA \<or> f \<ge> len rowB"
      "checkIgnored (ignoredFields config) rowA rowB
         = Inl (IgnoredFieldOutOfRange (sint (word_of_int f + 1 :: 64 word)))"
      by blast
    from b have "checkKeys (keys config) rowA rowB = Inr ()"
      by (intro checkKeys_passes) blast
    with f have "checkRow rowA rowB config
         = Inl (IgnoredFieldOutOfRange (sint (word_of_int f + 1 :: 64 word)))"
      by (simp add: checkRow_def)
    with a have "loop config readerA readerB eofA eofB st
         = Inl (IgnoredFieldOutOfRange (sint (word_of_int f + 1 :: 64 word)), written st)"
      by (intro loop_checkRow_fails) auto
    with f show "\<exists>f\<in>set (ignoredFields config). (f \<ge> len rowA \<or> f \<ge> len rowB)
           \<and> loop config readerA readerB eofA eofB st
                = Inl (IgnoredFieldOutOfRange (sint (word_of_int f + 1 :: 64 word)), written st)"
      by blast
  }
qed

theorem out_of_range_index_aborts_witness:
  "first initial
   \<and> readRow (fileOf [[''a'', ''b'']]) False
        = Inr (Some [''a'', ''b''], False, \<lparr>pending = [], broken = False\<rparr>)
   \<and> len (Some [''a'', ''b'']) \<le> sint (2 :: 64 word)
   \<and> loop (indexConfig [2] []) (fileOf [[''a'', ''b'']]) (fileOf [[''a'', ''b'']]) False False initial
        = Inl (KeyIndexOutOfRange 3, [])
   \<and> sint (0 :: 64 word) < len (Some [''a'', ''b'']) \<and> len (Some [''a'', ''b'']) \<le> 2
   \<and> loop (indexConfig [0] [2]) (fileOf [[''a'', ''b'']]) (fileOf [[''a'', ''b'']]) False False initial
        = Inl (IgnoredFieldOutOfRange 3, [])
   \<and> parseArgs (indexFlags ''3'' []) False = Inr (indexConfig [2] [])
   \<and> parseArgs (indexFlags ''1'' ''3'') False = Inr (indexConfig [0] [2])"
proof -
  have i: "first initial" "written initial = []"
    by (simp_all add: initial_def)
  have r: "readRow (fileOf [[''a'', ''b'']]) False
        = Inr (Some [''a'', ''b''], False, \<lparr>pending = [], broken = False\<rparr>)"
    by code_simp
  have k: "len (Some [''a'', ''b'']) \<le> sint (2 :: 64 word)"
    "sint (0 :: 64 word) < len (Some [''a'', ''b''])" "len (Some [''a'', ''b'']) \<le> 2"
    by (simp_all add: len_def)
  have p: "parseArgs (indexFlags ''3'' []) False = Inr (indexConfig [2] [])"
    "parseArgs (indexFlags ''1'' ''3'') False = Inr (indexConfig [0] [2])"
    by code_simp+
  have 1: "loop (indexConfig [2] []) (fileOf [[''a'', ''b'']]) (fileOf [[''a'', ''b'']]) False False initial
        = Inl (KeyIndexOutOfRange 3, [])"
    using i r k out_of_range_index_aborts [where st = initial and eofA = False and eofB = False
        and readerA = "fileOf [[''a'', ''b'']]" and readerB = "fileOf [[''a'', ''b'']]"
        and rowA = "Some [''a'', ''b'']" and rowB = "Some [''a'', ''b'']"
        and eofA' = False and eofB' = False
        and readerA' = "\<lparr>pending = [], broken = False\<rparr>"
        and readerB' = "\<lparr>pending = [], broken = False\<rparr>"
        and config = "indexConfig [2] []"]
    by (simp add: indexConfig_def)
  have 2: "loop (indexConfig [0] [2]) (fileOf [[''a'', ''b'']]) (fileOf [[''a'', ''b'']]) False False initial
        = Inl (IgnoredFieldOutOfRange 3, [])"
    using i r k out_of_range_index_aborts [where st = initial and eofA = False and eofB = False
        and readerA = "fileOf [[''a'', ''b'']]" and readerB = "fileOf [[''a'', ''b'']]"
        and rowA = "Some [''a'', ''b'']" and rowB = "Some [''a'', ''b'']"
        and eofA' = False and eofB' = False
        and readerA' = "\<lparr>pending = [], broken = False\<rparr>"
        and readerB' = "\<lparr>pending = [], broken = False\<rparr>"
        and config = "indexConfig [0] [2]"]
    by (simp add: indexConfig_def)
  from i r k p 1 2 show ?thesis by simp
qed

text \<open>
  The claim as stated fails once an aligned pair has been classified, because the check
  is made only while \<open>first\<close> is set: with \<^verbatim>\<open>-k=1 -i=2\<close> and two files whose
  records are \<open>a,b\<close> and \<open>c\<close>, the ignored index 2 is out of range for the second
  record of both files, and the run ends normally with status 0.
\<close>

theorem unchecked_later_rows_counterexample:
  "parseArgs (indexFlags ''1'' ''2'') False = Inr (indexConfig [0] [1])
   \<and> \<not> 1 < len (Some [''c''])
   \<and> (case main (indexFlags ''1'' ''2'') False (fileOf shortTail) (fileOf shortTail) of
         Inl _ \<Rightarrow> False
       | Inr (status, st) \<Rightarrow> status = 0 \<and> written st = [[''='', ''a'', ''b'']])"
  by code_simp

text \<open>
  The user's index 0 is not rejected by the row check. As a key it passes the check and
  the hash then indexes the row out of range, which is Go's runtime panic and not the
  message of \<open>checkRow\<close>; as an ignored index it passes the check and ignores nothing.
\<close>

lemma index_zero_passes_row_check:
  "parseArgs (indexFlags ''0'' []) False = Inr (indexConfig [- 1] [])
   \<and> checkRow (Some [''a'', ''b'']) (Some [''a'', ''b'']) (indexConfig [- 1] []) = Inr ()
   \<and> main (indexFlags ''0'' []) False (fileOf [[''a'', ''b'']]) (fileOf [[''a'', ''b'']])
        = Inl (IndexPanic, [])
   \<and> parseArgs (indexFlags ''1'' ''0'') False = Inr (indexConfig [0] [- 1])
   \<and> (case main (indexFlags ''1'' ''0'') False (fileOf [[''a'', ''b'']]) (fileOf [[''a'', ''c'']]) of
         Inl _ \<Rightarrow> False
       | Inr (status, st) \<Rightarrow> status = 1 \<and> written st = [[''#'', ''a'', ''b|-|c'']])"
  by code_simp

lemma readRow_empty:
  assumes "pending r = []" "\<not> broken r"
  shows "readRow r False = Inr (None, True, r)"
  using assms by (simp add: readRow_def)

text \<open>
  Claim C10, for every configuration in which at least one key has a signed reading that
  is not negative (the user gave it as an index from 1 to \<open>2^63\<close>, as the usage text
  asks: the key indexes start at 1). If one input delivers no record at all and the first
  read of the other delivers a row, then the run is aborted with
  \<open>Key index n out of range\<close> for such a key, whichever of the two inputs is the empty
  one, and no row has been written: the rows of the other input are not classified as
  additions or removals.
\<close>

theorem one_empty_input_aborts:
  "(\<exists>key\<in>set (keys config). 0 \<le> sint key)
   \<and> pending readerA = [] \<and> \<not> broken readerA
   \<and> readRow readerB False = Inr (Some rowB, eofB', readerB') \<longrightarrow>
     (\<exists>key\<in>set (keys config). 0 \<le> sint key
        \<and> run config readerA readerB = Inl (KeyIndexOutOfRange (key + 1), [])
        \<and> run config readerB readerA = Inl (KeyIndexOutOfRange (key + 1), []))"
proof
  assume a: "(\<exists>key\<in>set (keys config). 0 \<le> sint key)
   \<and> pending readerA = [] \<and> \<not> broken readerA
   \<and> readRow readerB False = Inr (Some rowB, eofB', readerB')"
  then have ra: "readRow readerA False = Inr (None, True, readerA)"
    by (simp add: readRow_empty)
  from a have "\<exists>key\<in>set (keys config). sint key \<ge> len None \<or> sint key \<ge> len (Some rowB)"
    by (auto simp: len_def)
  from checkKeys_fails [OF this] obtain key where k: "key \<in> set (keys config)"
    "sint key \<ge> len None \<or> sint key \<ge> len (Some rowB)"
    "checkKeys (keys config) None (Some rowB) = Inl (KeyIndexOutOfRange (key + 1))"
    by blast
  from k(2) have k0: "0 \<le> sint key"
    by (auto simp: len_def)
  have c1: "checkRow None (Some rowB) config = Inl (KeyIndexOutOfRange (key + 1))"
    using k(3) by (simp add: checkRow_def)
  have sym: "checkKeys ks (Some rowB) None = checkKeys ks None (Some rowB)" for ks
    by (induction ks) (auto simp: len_def)
  have c2: "checkRow (Some rowB) None config = Inl (KeyIndexOutOfRange (key + 1))"
    using k(3) by (simp add: checkRow_def sym)
  have l1: "loop config readerA readerB False False initial
              = Inl (KeyIndexOutOfRange (key + 1), written initial)"
    using ra a c1 by (intro loop_checkRow_fails) (auto simp: initial_def)
  have l2: "loop config readerB readerA False False initial
              = Inl (KeyIndexOutOfRange (key + 1), written initial)"
    using ra a c2 by (intro loop_checkRow_fails) (auto simp: initial_def)
  from l1 l2 k(1) k0 show "\<exists>key\<in>set (keys config). 0 \<le> sint key
        \<and> run config readerA readerB = Inl (KeyIndexOutOfRange (key + 1), [])
        \<and> run config readerB readerA = Inl (KeyIndexOutOfRange (key + 1), [])"
    by (auto simp: run_def initial_def)
qed

theorem one_empty_input_aborts_witness:
  "0 \<le> sint (0 :: 64 word)
   \<and> pending (fileOf []) = [] \<and> \<not> broken (fileOf [])
   \<and> readRow (fileOf exampleB) False
        = Inr (Some [''2'', ''Bob'', ''25''], False,
               \<lparr>pending = concat (map rowTokens (tl exampleB)), broken = False\<rparr>)
   \<and> run (exampleConfig False) (fileOf []) (fileOf exampleB) = Inl (KeyIndexOutOfRange 1, [])
   \<and> run (exampleConfig False) (fileOf exampleB) (fileOf []) = Inl (KeyIndexOutOfRange 1, [])"
proof -
  have e: "pending (fileOf []) = [] \<and> \<not> broken (fileOf [])"
    by (simp add: fileOf_def)
  have r: "readRow (fileOf exampleB) False
        = Inr (Some [''2'', ''Bob'', ''25''], False,
               \<lparr>pending = concat (map rowTokens (tl exampleB)), broken = False\<rparr>)"
    by code_simp
  from e r one_empty_input_aborts [where config = "exampleConfig False" and readerA = "fileOf []"
      and readerB = "fileOf exampleB" and rowB = "[''2'', ''Bob'', ''25'']" and eofB' = False
      and readerB' = "\<lparr>pending = concat (map rowTokens (tl exampleB)), broken = False\<rparr>"]
  have "run (exampleConfig False) (fileOf []) (fileOf exampleB) = Inl (KeyIndexOutOfRange 1, [])
      \<and> run (exampleConfig False) (fileOf exampleB) (fileOf []) = Inl (KeyIndexOutOfRange 1, [])"
    by (simp add: exampleConfig_def)
  with e r show ?thesis by simp
qed

text \<open>
  The code departs from claim C10 when every key was given as index 0. \<open>atouis\<close>
  accepts the 0 and stores \<open>0 - 1\<close> in an unsigned word, \<open>checkRow\<close> compares the
  signed reading \<open>-1\<close> with the lengths and lets the key pass
  (\<open>index_zero_passes_row_check\<close>), and the run is aborted by the out-of-range index in
  \<open>hashRow\<close>, Go's runtime panic, not by the message \<open>Key index ... out of range\<close>
  that \<open>checkRow\<close> is there to give.
\<close>

theorem empty_input_index_zero_counterexample:
  "parseArgs (indexFlags ''0'' []) False = Inr (indexConfig [- 1] [])
   \<and> main (indexFlags ''0'' []) False (fileOf []) (fileOf [[''a'', ''b'']]) = Inl (IndexPanic, [])
   \<and> main (indexFlags ''0'' []) False (fileOf [[''a'', ''b'']]) (fileOf []) = Inl (IndexPanic, [])"
  by code_simp

subsection \<open>Header capture\<close>

lemma marks_length: "map_option length (marks P is mf) = map_option length mf"
proof (cases mf)
  case None
  then show ?thesis by simp
next
  case (Some v)
  with marks_Some [of P "is" v] show ?thesis by auto
qed

lemma areEquals_mf_length:
  "map_option length (snd (snd (areEquals A B c mf))) = map_option length mf"
  by (simp add: areEquals_snd marks_length)

lemma length_fresh_delta:
  "length (take (Suc 0) (newDelta m) @ copy (drop (Suc 0) (newDelta m)) src) = Suc m"
  by (auto simp: newDelta_def copy_def)

lemma compareField_fst_length:
  assumes "\<not> sm \<longrightarrow> length rd = m + 1"
  shows "\<not> fst (snd (compareField c A B m i (rd, sm, mf)))
           \<longrightarrow> length (fst (compareField c A B m i (rd, sm, mf))) = m + 1"
  using assms by (auto simp: Let_def length_fresh_delta simp del: length_append)

lemma fold_compareField_length:
  assumes "\<not> fst (snd s) \<longrightarrow> length (fst s) = m + 1"
  shows "\<not> fst (snd (fold (compareField c A B m) is s))
           \<longrightarrow> length (fst (fold (compareField c A B m) is s)) = m + 1"
  using assms
proof (induction "is" arbitrary: s)
  case Nil
  then show ?case by simp
next
  case (Cons i "is")
  obtain rd sm mf where s: "s = (rd, sm, mf)" by (cases s) auto
  from Cons.prems have "\<not> sm \<longrightarrow> length rd = m + 1" by (simp add: s)
  from Cons.IH [OF compareField_fst_length [OF this]]
  show ?case by (simp add: s del: compareField.simps)
qed

lemma padField_fst_length:
  "length (fst (padField c A B lg i s)) = length (fst s)"
  by (cases s) auto

lemma fold_padField_length:
  "length (fst (fold (padField c A B lg) is s)) = length (fst s)"
  by (induction "is" arbitrary: s) (simp_all add: padField_fst_length del: padField.simps)

lemma areEquals_delta_length:
  assumes "\<not> fst (snd (areEquals A B c mf))"
  shows "length (fst (areEquals A B c mf)) = max (length A) (length B) + 1"
proof -
  let ?mn = "if length A > length B then length B else length A"
  let ?mx = "if length A > length B then length A else length B"
  let ?lg = "if length A > length B then 1 else if length B > length A then 2 else (0::nat)"
  let ?sm = "\<not> length A > length B \<and> \<not> length B > length A"
  let ?s0 = "(if \<not> ?sm then newDelta ?mx else [], ?sm, mf)"
  let ?s1 = "fold (compareField c A B ?mx) [0..<?mn] ?s0"
  have e: "areEquals A B c mf = fold (padField c A B ?lg) [?mn..<?mx] ?s1"
    by (simp add: areEquals_def Let_def)
  have "\<not> fst (snd ?s0) \<longrightarrow> length (fst ?s0) = ?mx + 1"
    by (simp add: newDelta_def)
  then have 1: "\<not> fst (snd ?s1) \<longrightarrow> length (fst ?s1) = ?mx + 1"
    by (rule fold_compareField_length)
  have "fst (snd (fold (padField c A B ?lg) [?mn..<?mx] ?s1)) = fst (snd ?s1)"
    by (simp add: fold_padField)
  with assms e have "\<not> fst (snd ?s1)" by simp
  with 1 have "length (fst ?s1) = ?mx + 1" by blast
  then have "length (fst (areEquals A B c mf)) = ?mx + 1"
    unfolding e by (simp only: fold_padField_length)
  then show ?thesis by (simp add: max_def)
qed


lemma aligned_frame:
  assumes "\<not> first st"
  shows "\<not> first (aligned c a b st) \<and> headers (aligned c a b st) = headers st
       \<and> map_option length (modifiedFields (aligned c a b st)) = map_option length (modifiedFields st)"
proof -
  obtain rd sm mf where e: "areEquals a b c (modifiedFields st) = (rd, sm, mf)"
    by (cases "areEquals a b c (modifiedFields st)") auto
  with areEquals_mf_length [of a b c "modifiedFields st"]
  have l: "map_option length mf = map_option length (modifiedFields st)" by simp
  from assms l show ?thesis
    by (simp add: aligned_def e Let_def writeRow_def)
qed

lemma probeA_frame:
  "first (probeA c a h st) = first st \<and> headers (probeA c a h st) = headers st
   \<and> map_option length (modifiedFields (probeA c a h st)) = map_option length (modifiedFields st)"
proof (cases "map_of (cacheB st) h")
  case None
  then show ?thesis
    by (simp add: probeA_def searchCache_def Let_def)
next
  case (Some alt)
  obtain rd sm mf where e: "areEquals a alt c (modifiedFields st) = (rd, sm, mf)"
    by (cases "areEquals a alt c (modifiedFields st)") auto
  with areEquals_mf_length [of a alt c "modifiedFields st"]
  have l: "map_option length mf = map_option length (modifiedFields st)" by simp
  from Some l show ?thesis
    by (simp add: probeA_def searchCache_def e Let_def writeRow_def fields_def)
qed

lemma probeB_frame:
  "first (probeB c b h st) = first st \<and> headers (probeB c b h st) = headers st
   \<and> map_option length (modifiedFields (probeB c b h st)) = map_option length (modifiedFields st)"
proof (cases "map_of (cacheA st) h")
  case None
  then show ?thesis
    by (simp add: probeB_def searchCache_def Let_def)
next
  case (Some alt)
  obtain rd sm mf where e: "areEquals alt b c (modifiedFields st) = (rd, sm, mf)"
    by (cases "areEquals alt b c (modifiedFields st)") auto
  with areEquals_mf_length [of alt b c "modifiedFields st"]
  have l: "map_option length mf = map_option length (modifiedFields st)" by simp
  from Some l show ?thesis
    by (simp add: probeB_def searchCache_def e Let_def writeRow_def fields_def)
qed

lemma pair_frame:
  assumes "pair c rA rB st = Inr (a, b, hA, hB, st1)"
  shows "first st1 = first st \<and> headers st1 = headers st
       \<and> modifiedFields st1 = modifiedFields st"
  using assms
  by (auto simp: pair_def searchCache_def split: option.splits sum.splits)

lemma body_frame:
  assumes "body c rA rB st = Inr st2"
  shows "(first st2 \<longrightarrow> first st)
       \<and> (first st2 \<or> \<not> first st \<longrightarrow>
            headers st2 = headers st
          \<and> map_option length (modifiedFields st2) = map_option length (modifiedFields st))"
proof (cases "rA = None \<and> rB = None")
  case True
  with assms show ?thesis by (simp add: body_def)
next
  case False
  with assms obtain a b hA hB st1 where
    p: "pair c rA rB (st\<lparr>totalCount := totalCount st + 1\<rparr>) = Inr (a, b, hA, hB, st1)"
    by (auto simp: body_def split: sum.splits if_splits)
  from pair_frame [OF p] have f: "first st1 = first st" "headers st1 = headers st"
    "modifiedFields st1 = modifiedFields st" by simp_all
  from assms False p have r: "st2 =
      (if a = None then (writeRow (delta (fields b) CHR ''+'') st1)\<lparr>addedCount := addedCount st1 + 1\<rparr>
       else if b = None then (writeRow (delta (fields a) CHR ''-'') st1)\<lparr>removedCount := removedCount st1 + 1\<rparr>
       else if hA = hB then aligned c (fields a) (fields b) st1
       else probeB c (fields b) hB (probeA c (fields a) hA st1))"
    by (auto simp: body_def split: sum.splits if_splits)
  show ?thesis
  proof (cases "a \<noteq> None \<and> b \<noteq> None \<and> hA = hB")
    case True
    with r have st2: "st2 = aligned c (fields a) (fields b) st1" by simp
    show ?thesis
    proof (cases "first st")
      case True
      then have "first st1" by (simp add: f)
      then have "\<not> first st2"
        unfolding st2
        by (cases "areEquals (fields a) (fields b) c (modifiedFields st1)")
           (simp add: aligned_def Let_def writeRow_def)
      with True show ?thesis by simp
    next
      case False
      then have "\<not> first st1" by (simp add: f)
      from aligned_frame [OF this, of c "fields a" "fields b"] False f show ?thesis
        by (simp add: st2)
    qed
  next
    case False
    with r probeA_frame [of c "fields a" hA st1]
      probeB_frame [of c "fields b" hB "probeA c (fields a) hA st1"] f
    show ?thesis
      by (auto simp: writeRow_def split: if_splits)
  qed
qed


lemma aligned_captures:
  assumes "first st" "modifiedFields st = None"
  shows "\<not> first (aligned c a b st)
       \<and> modifiedFields (aligned c a b st) = Some (replicate (max (length a) (length b)) False)
       \<and> headers (aligned c a b st)
           = (if noHeader c then headers st
              else Some (if fst (snd (areEquals a b c None)) then a
                         else drop 1 (fst (areEquals a b c None))))
       \<and> length (if fst (snd (areEquals a b c None)) then a else drop 1 (fst (areEquals a b c None)))
           = max (length a) (length b)"
proof (cases "fst (snd (areEquals a b c None))")
  case True
  then have e: "areEquals a b c None = ([], True, None)"
    by (rule areEquals_same_result)
  from True have "length a = length b" by (simp add: areEquals_same)
  with assms show ?thesis
    by (simp add: aligned_def e Let_def writeRow_def deepCopy_same)
next
  case False
  obtain rd mf where e: "areEquals a b c None = (rd, False, mf)"
    using False by (cases "areEquals a b c None") auto
  from areEquals_delta_length [OF False] e
  have l: "length rd = max (length a) (length b) + 1" by simp
  with assms show ?thesis
    by (simp add: aligned_def e Let_def writeRow_def deepCopy_same)
qed

text \<open>
  Claim C6, as amended. If the first pair of rows that the run classifies has equal key
  hashes (and passes the row check), then on that pair the flag \<open>first\<close> is cleared,
  the tracking vector is created with one slot for every field of the longer row, and,
  unless headers are disabled (\<^verbatim>\<open>-n\<close>), the header row is captured with that
  same number of fields: row A when the two rows compare equal, the fields of the delta
  row otherwise. With headers disabled no header row is captured. Capture happens at
  most once per run: an iteration never sets \<open>first\<close> again, and an iteration that
  starts with \<open>first\<close> cleared, or ends with it still set, changes neither the header
  row nor the size of the tracking vector. (What happens when the first pair classified
  has different key hashes is not part of this statement.)
\<close>

theorem header_capture:
  "(hashRow rowA (keys config) = Inr h \<and> hashRow rowB (keys config) = Inr h
      \<and> checkRow (Some rowA) (Some rowB) config = Inr () \<longrightarrow>
     (\<exists>st'. body config (Some rowA) (Some rowB) initial = Inr st' \<and> \<not> first st'
        \<and> modifiedFields st' = Some (replicate (max (length rowA) (length rowB)) False)
        \<and> headers st'
            = (if noHeader config then None
               else Some (if fst (snd (areEquals rowA rowB config None)) then rowA
                          else drop 1 (fst (areEquals rowA rowB config None))))
        \<and> length (if fst (snd (areEquals rowA rowB config None)) then rowA
                   else drop 1 (fst (areEquals rowA rowB config None)))
            = max (length rowA) (length rowB)))
   \<and> (body config rA rB st = Inr st2 \<longrightarrow>
        (first st2 \<longrightarrow> first st)
      \<and> (first st2 \<or> \<not> first st \<longrightarrow>
            headers st2 = headers st
          \<and> map_option length (modifiedFields st2) = map_option length (modifiedFields st)))"
proof -
  have 1: "hashRow rowA (keys config) = Inr h \<and> hashRow rowB (keys config) = Inr h
      \<and> checkRow (Some rowA) (Some rowB) config = Inr () \<longrightarrow>
     (\<exists>st'. body config (Some rowA) (Some rowB) initial = Inr st' \<and> \<not> first st'
        \<and> modifiedFields st' = Some (replicate (max (length rowA) (length rowB)) False)
        \<and> headers st'
            = (if noHeader config then None
               else Some (if fst (snd (areEquals rowA rowB config None)) then rowA
                          else drop 1 (fst (areEquals rowA rowB config None))))
        \<and> length (if fst (snd (areEquals rowA rowB config None)) then rowA
                   else drop 1 (fst (areEquals rowA rowB config None)))
            = max (length rowA) (length rowB))"
  proof
    assume a: "hashRow rowA (keys config) = Inr h \<and> hashRow rowB (keys config) = Inr h
      \<and> checkRow (Some rowA) (Some rowB) config = Inr ()"
    let ?st = "initial\<lparr>totalCount := totalCount initial + 1\<rparr>"
    have b: "body config (Some rowA) (Some rowB) initial = Inr (aligned config rowA rowB ?st)"
      using a by (simp add: body_def pair_def fields_def initial_def)
    have "first ?st" "modifiedFields ?st = None" "headers ?st = None"
      by (simp_all add: initial_def)
    from aligned_captures [OF this(1,2), of config rowA rowB] this(3) b
    show "\<exists>st'. body config (Some rowA) (Some rowB) initial = Inr st' \<and> \<not> first st'
        \<and> modifiedFields st' = Some (replicate (max (length rowA) (length rowB)) False)
        \<and> headers st'
            = (if noHeader config then None
               else Some (if fst (snd (areEquals rowA rowB config None)) then rowA
                          else drop 1 (fst (areEquals rowA rowB config None))))
        \<and> length (if fst (snd (areEquals rowA rowB config None)) then rowA
                   else drop 1 (fst (areEquals rowA rowB config None)))
            = max (length rowA) (length rowB)"
      by simp
  qed
  have 2: "body config rA rB st = Inr st2 \<longrightarrow>
        (first st2 \<longrightarrow> first st)
      \<and> (first st2 \<or> \<not> first st \<longrightarrow>
            headers st2 = headers st
          \<and> map_option length (modifiedFields st2) = map_option length (modifiedFields st))"
    using body_frame [of config rA rB st st2] by blast
  from 1 2 show ?thesis by (rule conjI)
qed

theorem header_capture_witness:
  "hashRow [''id'', ''name''] (keys (exampleConfig False)) = Inr 628021283683842752
   \<and> checkRow (Some [''id'', ''name'']) (Some [''id'', ''name'']) (exampleConfig False) = Inr ()
   \<and> (\<exists>st'. body (exampleConfig False) (Some [''id'', ''name'']) (Some [''id'', ''name'']) initial
              = Inr st'
          \<and> \<not> first st' \<and> modifiedFields st' = Some [False, False]
          \<and> headers st' = Some [''id'', ''name''])
   \<and> (\<exists>st2. body (exampleConfig False) (Some [''1'', ''x'']) (Some [''1'', ''y''])
               (initial\<lparr>headers := Some [''id'', ''name''], modifiedFields := Some [False, False],
                  first := False\<rparr>) = Inr st2
          \<and> \<not> first st2 \<and> headers st2 = Some [''id'', ''name'']
          \<and> map_option length (modifiedFields st2) = Some (length [False, False]))"
proof -
  let ?r = "[''id'', ''name'']"
  let ?s = "initial\<lparr>headers := Some [''id'', ''name''], modifiedFields := Some [False, False],
              first := False\<rparr>"
  have h: "hashRow ?r (keys (exampleConfig False)) = Inr 628021283683842752"
    by code_simp
  have c: "checkRow (Some ?r) (Some ?r) (exampleConfig False) = Inr ()"
    by code_simp
  have e: "fst (snd (areEquals ?r ?r (exampleConfig False) None))"
    by code_simp
  from h c e header_capture [where rowA = ?r and rowB = ?r and config = "exampleConfig False"
      and h = 628021283683842752]
  have 1: "\<exists>st'. body (exampleConfig False) (Some ?r) (Some ?r) initial = Inr st'
          \<and> \<not> first st' \<and> modifiedFields st' = Some [False, False]
          \<and> headers st' = Some ?r"
    by (simp add: exampleConfig_def numeral_2_eq_2)
  have "case body (exampleConfig False) (Some [''1'', ''x'']) (Some [''1'', ''y'']) ?s of
          Inl _ \<Rightarrow> False | Inr _ \<Rightarrow> True"
    by code_simp
  then obtain st2 where b: "body (exampleConfig False) (Some [''1'', ''x'']) (Some [''1'', ''y'']) ?s
      = Inr st2"
    by (auto split: sum.splits)
  from b header_capture [where config = "exampleConfig False" and rA = "Some [''1'', ''x'']"
      and rB = "Some [''1'', ''y'']" and st = ?s and ?st2.0 = st2]
  have 2: "\<not> first st2 \<and> headers st2 = Some ?r
          \<and> map_option length (modifiedFields st2) = Some (length [False, False])"
    by (auto simp: initial_def)
  from h c 1 2 b show ?thesis by blast
qed

text \<open>
  The claim as stated fails in two ways. With headers disabled (\<^verbatim>\<open>-n\<close>) the first
  pair is classified and no header row is captured. And when the first pair has
  different key hashes nothing is captured on it: in the end-to-end example no pair is
  ever aligned, so at the end of the run \<open>first\<close> is still set and neither a header row
  nor a tracking vector exists, although three pairs were classified and one
  modification was counted.
\<close>

theorem header_capture_counterexample:
  "(case main ((exampleFlags False)\<lparr>flag_n := True\<rparr>) False
           (fileOf [[''1'', ''a'']]) (fileOf [[''1'', ''a'']]) of
      Inl _ \<Rightarrow> False
    | Inr (status, st) \<Rightarrow> totalCount st = 1 \<and> \<not> first st \<and> headers st = None)
   \<and> (case main (exampleFlags False) False (fileOf exampleA) (fileOf exampleB) of
      Inl _ \<Rightarrow> False
    | Inr (status, st) \<Rightarrow> totalCount st = 3 \<and> modifiedCount st = 1 \<and> first st
        \<and> headers st = None \<and> modifiedFields st = None)"
  by code_simp

subsection \<open>The end-to-end example, run\<close>

lemma example_run_plain:
  "case main (exampleFlags False) False (fileOf exampleA) (fileOf exampleB) of
     Inl _ \<Rightarrow> False
   | Inr (status, st) \<Rightarrow>
       written st = [[''#'', ''1'', ''Alice'', ''30|-|31''], [''-'', ''4'', ''Dana'', ''40''],
                     [''+'', ''3'', ''Carol'', ''22'']]
     \<and> removedCount st = 1 \<and> addedCount st = 1 \<and> modifiedCount st = 1"
  by code_simp

lemma example_run_common:
  "case main (exampleFlags True) False (fileOf exampleA) (fileOf exampleB) of
     Inl _ \<Rightarrow> False
   | Inr (status, st) \<Rightarrow>
       written st = [[''='', ''2'', ''Bob'', ''25''], [''#'', ''1'', ''Alice'', ''30|-|31''],
                     [''-'', ''4'', ''Dana'', ''40''], [''+'', ''3'', ''Carol'', ''22'']]
     \<and> removedCount st = 1 \<and> addedCount st = 1 \<and> modifiedCount st = 1"
  by code_simp

text \<open>
  Claim C8, as amended. On the end-to-end example in the piped format, with or without
  \<^verbatim>\<open>-c\<close>, the run ends without fault and the rows written are, up to their order,
  \<open># 1 Alice 30|-|31\<close>, \<open>+ 3 Carol 22\<close> and \<open>- 4 Dana 40\<close>, and in addition
  \<open>= 2 Bob 25\<close> exactly when \<^verbatim>\<open>-c\<close> is given; the final counters are removed = 1,
  added = 1 and modified = 1. The two values of the changed field are joined by the
  symbol, a minus sign and the symbol again.
\<close>

theorem end_to_end_example:
  "case main (exampleFlags c) False (fileOf exampleA) (fileOf exampleB) of
     Inl _ \<Rightarrow> False
   | Inr (status, st) \<Rightarrow>
       mset (written st)
         = mset ([[''#'', ''1'', ''Alice'', ''30|-|31''], [''+'', ''3'', ''Carol'', ''22''],
                  [''-'', ''4'', ''Dana'', ''40'']]
                 @ (if c then [[''='', ''2'', ''Bob'', ''25'']] else []))
     \<and> removedCount st = 1 \<and> addedCount st = 1 \<and> modifiedCount st = 1"
proof (cases c)
  case True
  with example_run_common show ?thesis
    by (auto split: sum.splits)
next
  case False
  with example_run_plain show ?thesis
    by (auto split: sum.splits)
qed

theorem end_to_end_example_witness:
  "\<exists>st. main (exampleFlags True) False (fileOf exampleA) (fileOf exampleB) = Inr (1, st)
     \<and> mset (written st)
         = {#[''#'', ''1'', ''Alice'', ''30|-|31''], [''+'', ''3'', ''Carol'', ''22''],
             [''-'', ''4'', ''Dana'', ''40''], [''='', ''2'', ''Bob'', ''25'']#}
     \<and> removedCount st = 1 \<and> addedCount st = 1 \<and> modifiedCount st = 1"
proof -
  have "case main (exampleFlags True) False (fileOf exampleA) (fileOf exampleB) of
          Inl _ \<Rightarrow> False | Inr (status, st) \<Rightarrow> status = 1"
    by code_simp
  then obtain st where
    r: "main (exampleFlags True) False (fileOf exampleA) (fileOf exampleB) = Inr (1, st)"
    by (auto split: sum.splits)
  from end_to_end_example [of True] r show ?thesis
    by (auto simp: add_mset_commute)
qed

text \<open>
  The claim as stated names the row \<open># 1 Alice 30|31\<close>; no such row is written, with
  or without \<^verbatim>\<open>-c\<close>.
\<close>

theorem end_to_end_example_counterexample:
  "(case main (exampleFlags False) False (fileOf exampleA) (fileOf exampleB) of
      Inl _ \<Rightarrow> False
    | Inr (status, st) \<Rightarrow> [''#'', ''1'', ''Alice'', ''30|31''] \<notin> set (written st))
   \<and> (case main (exampleFlags True) False (fileOf exampleA) (fileOf exampleB) of
      Inl _ \<Rightarrow> False
    | Inr (status, st) \<Rightarrow> [''#'', ''1'', ''Alice'', ''30|31''] \<notin> set (written st))
   \<and> concat2 ''30'' ''31'' 1 CHR ''|'' = ''30|-|31''"
  by code_simp

section \<open>Whole runs\<close>

subsection \<open>The loop on well-formed files\<close>

lemma scanRecord_rowTokens:
  assumes "row \<noteq> []"
  shows "scanRecord (rowTokens row @ ts) buffer = (buffer @ row, False, ts)"
  using assms
proof (induction row arbitrary: buffer rule: rowTokens.induct)
  case 1
  then show ?case by simp
next
  case (2 f)
  show ?case by simp
next
  case (3 f g fs)
  from 3(1) [of "buffer @ [f]"] show ?case by simp
qed

lemma readRow_fileOf_Cons:
  assumes "row \<noteq> []"
  shows "readRow (fileOf (row # rows)) False = Inr (Some row, False, fileOf rows)"
  using assms scanRecord_rowTokens [OF assms, of "concat (map rowTokens rows)" "[]"]
  by (simp add: readRow_def fileOf_def)

lemma readRow_fileOf_Nil: "readRow (fileOf []) eof = Inr (None, True, fileOf [])"
  by (simp add: readRow_def fileOf_def)

lemma loop_Nil_Nil: "loop config (fileOf []) (fileOf []) eofA eofB st = Inr st"
proof -
  have fin: "loop config (fileOf []) (fileOf []) True True st = Inr st"
    by (subst loop.simps) simp
  show ?thesis
  proof (cases "eofA \<and> eofB")
    case True
    with fin show ?thesis by simp
  next
    case False
    then show ?thesis
      by (subst loop.simps) (simp add: readRow_fileOf_Nil body_def fin)
  qed
qed

lemma loop_Cons_Cons:
  assumes "a \<noteq> []" "b \<noteq> []"
  shows "loop config (fileOf (a # as)) (fileOf (b # bs)) False False st
     = (case body config (Some a) (Some b) st of
          Inl e \<Rightarrow> Inl (e, written st)
        | Inr st1 \<Rightarrow> loop config (fileOf as) (fileOf bs) False False st1)"
  by (subst loop.simps) (simp add: readRow_fileOf_Cons assms)

lemma loop_Cons_Nil:
  assumes "a \<noteq> []"
  shows "loop config (fileOf (a # as)) (fileOf []) False eofB st
     = (case body config (Some a) None st of
          Inl e \<Rightarrow> Inl (e, written st)
        | Inr st1 \<Rightarrow> loop config (fileOf as) (fileOf []) False True st1)"
  by (subst loop.simps) (simp add: readRow_fileOf_Cons readRow_fileOf_Nil assms)

lemma loop_Nil_Cons:
  assumes "b \<noteq> []"
  shows "loop config (fileOf []) (fileOf (b # bs)) eofA False st
     = (case body config None (Some b) st of
          Inl e \<Rightarrow> Inl (e, written st)
        | Inr st1 \<Rightarrow> loop config (fileOf []) (fileOf bs) True False st1)"
  by (subst loop.simps) (simp add: readRow_fileOf_Cons readRow_fileOf_Nil assms)


subsection \<open>What one comparison and one probe do\<close>

lemma compareField_marker:
  assumes "\<not> sm \<longrightarrow> take 1 rd = [''#'']"
  shows "\<not> fst (snd (compareField c A B m i (rd, sm, mf)))
           \<longrightarrow> take 1 (fst (compareField c A B m i (rd, sm, mf))) = [''#'']"
  using assms by (auto simp: Let_def newDelta_def take_update_cancel)

lemma fold_compareField_marker:
  assumes "\<not> fst (snd s) \<longrightarrow> take 1 (fst s) = [''#'']"
  shows "\<not> fst (snd (fold (compareField c A B m) is s))
           \<longrightarrow> take 1 (fst (fold (compareField c A B m) is s)) = [''#'']"
  using assms
proof (induction "is" arbitrary: s)
  case Nil
  then show ?case by simp
next
  case (Cons i "is")
  obtain rd sm mf where s: "s = (rd, sm, mf)" by (cases s) auto
  from Cons.prems have "\<not> sm \<longrightarrow> take 1 rd = [''#'']" by (simp add: s)
  from Cons.IH [OF compareField_marker [OF this]]
  show ?case by (simp add: s del: compareField.simps)
qed

lemma padField_marker: "take 1 (fst (padField c A B lg i s)) = take 1 (fst s)"
  by (cases s) (auto simp: take_update_cancel)

lemma fold_padField_marker: "take 1 (fst (fold (padField c A B lg) is s)) = take 1 (fst s)"
  by (induction "is" arbitrary: s) (simp_all add: padField_marker [simplified] del: padField.simps)

lemma areEquals_marker:
  assumes "\<not> fst (snd (areEquals A B c mf))"
  shows "take 1 (fst (areEquals A B c mf)) = [''#'']"
proof -
  let ?mn = "if length A > length B then length B else length A"
  let ?mx = "if length A > length B then length A else length B"
  let ?lg = "if length A > length B then 1 else if length B > length A then 2 else (0::nat)"
  let ?sm = "\<not> length A > length B \<and> \<not> length B > length A"
  let ?s0 = "(if \<not> ?sm then newDelta ?mx else [], ?sm, mf)"
  let ?s1 = "fold (compareField c A B ?mx) [0..<?mn] ?s0"
  have e: "areEquals A B c mf = fold (padField c A B ?lg) [?mn..<?mx] ?s1"
    by (simp add: areEquals_def Let_def)
  have "\<not> fst (snd ?s0) \<longrightarrow> take 1 (fst ?s0) = [''#'']"
    by (simp add: newDelta_def)
  then have 1: "\<not> fst (snd ?s1) \<longrightarrow> take 1 (fst ?s1) = [''#'']"
    by (rule fold_compareField_marker)
  have "fst (snd (fold (padField c A B ?lg) [?mn..<?mx] ?s1)) = fst (snd ?s1)"
    by (simp add: fold_padField)
  with assms e have "\<not> fst (snd ?s1)" by simp
  with 1 have "take 1 (fst ?s1) = [''#'']" by blast
  then show ?thesis
    unfolding e by (simp only: fold_padField_marker)
qed

lemma sameRows_verdict: "fst (snd (areEquals a b c mf)) = sameRows c a b"
  by (simp add: sameRows_def areEquals_same)

lemma emitted_append:
  "emitted s (w @ [row]) = emitted s w @ (if take 1 row = [[s]] then [drop 1 row] else [])"
  by (simp add: emitted_def)

lemma emitted_delta:
  "emitted s (w @ [delta r t]) = emitted s w @ (if t = s then [r] else [])"
  by (simp add: emitted_def delta_def)

text \<open>The part of the state that the counts and the two kinds of unmatched rows depend on.\<close>

lemma aligned_effect:
  assumes "s = CHR ''+'' \<or> s = CHR ''-''"
  shows "cacheA (aligned c a b st) = cacheA st \<and> cacheB (aligned c a b st) = cacheB st
       \<and> emitted s (written (aligned c a b st)) = emitted s (written st)
       \<and> addedCount (aligned c a b st) = addedCount st
       \<and> removedCount (aligned c a b st) = removedCount st
       \<and> modifiedCount (aligned c a b st)
           = modifiedCount st + (if sameRows c a b then 0 else 1)"
proof (cases "sameRows c a b")
  case True
  then have e: "areEquals a b c (modifiedFields st) = ([], True, modifiedFields st)"
    by (intro areEquals_same_result) (simp add: sameRows_verdict)
  from True assms show ?thesis
    by (auto simp: aligned_def e Let_def writeRow_def emitted_delta)
next
  case False
  then have n: "\<not> fst (snd (areEquals a b c (modifiedFields st)))"
    by (simp add: sameRows_verdict)
  then obtain rd mf where e: "areEquals a b c (modifiedFields st) = (rd, False, mf)"
    by (cases "areEquals a b c (modifiedFields st)") auto
  from areEquals_marker [OF n] e have m: "take 1 rd = [''#'']" by simp
  from False assms m show ?thesis
    by (auto simp: aligned_def e Let_def writeRow_def emitted_append)
qed

lemma probeA_effect:
  assumes "s = CHR ''+'' \<or> s = CHR ''-''"
  shows "emitted s (written (probeA c a h st)) = emitted s (written st)
       \<and> addedCount (probeA c a h st) = addedCount st
       \<and> removedCount (probeA c a h st) = removedCount st
       \<and> cacheB (probeA c a h st) = cacheDelete h (cacheB st)
       \<and> cacheA (probeA c a h st)
           = (case map_of (cacheB st) h of None \<Rightarrow> cacheStore h a (cacheA st) | Some _ \<Rightarrow> cacheA st)
       \<and> modifiedCount (probeA c a h st)
           = modifiedCount st
             + (case map_of (cacheB st) h of None \<Rightarrow> 0
                | Some alt \<Rightarrow> if sameRows c a alt then 0 else 1)"
proof (cases "map_of (cacheB st) h")
  case None
  then have "h \<notin> fst ` set (cacheB st)"
    by (simp add: map_of_eq_None_iff)
  then have "cacheDelete h (cacheB st) = cacheB st"
    by (auto simp: cacheDelete_def filter_id_conv)
  with None show ?thesis
    by (simp add: probeA_def searchCache_def Let_def deepCopy_same)
next
  case (Some alt)
  show ?thesis
  proof (cases "sameRows c a alt")
    case True
    then have e: "areEquals a alt c (modifiedFields st) = ([], True, modifiedFields st)"
      by (intro areEquals_same_result) (simp add: sameRows_verdict)
    from True Some assms show ?thesis
      by (auto simp: probeA_def searchCache_def e Let_def writeRow_def emitted_delta fields_def)
  next
    case False
    then have n: "\<not> fst (snd (areEquals a alt c (modifiedFields st)))"
      by (simp add: sameRows_verdict)
    then obtain rd mf where e: "areEquals a alt c (modifiedFields st) = (rd, False, mf)"
      by (cases "areEquals a alt c (modifiedFields st)") auto
    from areEquals_marker [OF n] e have m: "take 1 rd = [''#'']" by simp
    from False Some assms m show ?thesis
      by (auto simp: probeA_def searchCache_def e Let_def writeRow_def emitted_append fields_def)
  qed
qed

lemma probeB_effect:
  assumes "s = CHR ''+'' \<or> s = CHR ''-''"
  shows "emitted s (written (probeB c b h st)) = emitted s (written st)
       \<and> addedCount (probeB c b h st) = addedCount st
       \<and> removedCount (probeB c b h st) = removedCount st
       \<and> cacheA (probeB c b h st) = cacheDelete h (cacheA st)
       \<and> cacheB (probeB c b h st)
           = (case map_of (cacheA st) h of None \<Rightarrow> cacheStore h b (cacheB st) | Some _ \<Rightarrow> cacheB st)
       \<and> modifiedCount (probeB c b h st)
           = modifiedCount st
             + (case map_of (cacheA st) h of None \<Rightarrow> 0
                | Some alt \<Rightarrow> if sameRows c alt b then 0 else 1)"
proof (cases "map_of (cacheA st) h")
  case None
  then have "h \<notin> fst ` set (cacheA st)"
    by (simp add: map_of_eq_None_iff)
  then have "cacheDelete h (cacheA st) = cacheA st"
    by (auto simp: cacheDelete_def filter_id_conv)
  with None show ?thesis
    by (simp add: probeB_def searchCache_def Let_def deepCopy_same)
next
  case (Some alt)
  show ?thesis
  proof (cases "sameRows c alt b")
    case True
    then have e: "areEquals alt b c (modifiedFields st) = ([], True, modifiedFields st)"
      by (intro areEquals_same_result) (simp add: sameRows_verdict)
    from True Some assms show ?thesis
      by (auto simp: probeB_def searchCache_def e Let_def writeRow_def emitted_delta fields_def)
  next
    case False
    then have n: "\<not> fst (snd (areEquals alt b c (modifiedFields st)))"
      by (simp add: sameRows_verdict)
    then obtain rd mf where e: "areEquals alt b c (modifiedFields st) = (rd, False, mf)"
      by (cases "areEquals alt b c (modifiedFields st)") auto
    from areEquals_marker [OF n] e have m: "take 1 rd = [''#'']" by simp
    from False Some assms m show ?thesis
      by (auto simp: probeB_def searchCache_def e Let_def writeRow_def emitted_append fields_def)
  qed
qed

subsection \<open>Lists of rows with distinct key hashes\<close>

lemma unmatched_snoc_left:
  "unmatched c (pa @ [a]) pb
     = unmatched c pa pb @ (if keyHash c a \<in> keyHash c ` set pb then [] else [a])"
  by (simp add: unmatched_def)

lemma unmatched_snoc_right:
  "unmatched c pb (pa @ [a]) = filter (\<lambda>r. keyHash c r \<noteq> keyHash c a) (unmatched c pb pa)"
  by (auto simp: unmatched_def intro: filter_cong)

lemma changed_snoc_left:
  "changed c (pa @ [a]) pb
     = changed c pa pb
       @ (if \<exists>b\<in>set pb. keyHash c b = keyHash c a \<and> \<not> sameRows c a b then [a] else [])"
  by (simp add: changed_def)

lemma length_filter_unique:
  assumes "distinct (map f xs)"
  shows "length (filter (\<lambda>x. f x = k \<and> P x) xs) = (if \<exists>x\<in>set xs. f x = k \<and> P x then 1 else 0)"
  using assms
proof (induction xs)
  case Nil
  show ?case by simp
next
  case (Cons x xs)
  then have d: "distinct (map f xs)" and n: "f x \<notin> f ` set xs" by simp_all
  show ?case
  proof (cases "f x = k")
    case True
    have no: "f y \<noteq> k" if "y \<in> set xs" for y
    proof
      assume "f y = k"
      with True have "f x = f y" by simp
      then have "f x \<in> f ` set xs"
        using that by (intro image_eqI [where x = y]) simp_all
      with n show False ..
    qed
    then have "filter (\<lambda>x. f x = k \<and> P x) xs = []"
      by (simp add: filter_empty_conv)
    moreover from no have "\<not> (\<exists>y\<in>set xs. f y = k \<and> P y)" by blast
    ultimately show ?thesis using True by simp
  next
    case False
    with Cons.IH [OF d] show ?thesis by simp
  qed
qed

lemma filter_disjoint_or:
  assumes "\<And>x. \<not> (P x \<and> Q x)"
  shows "length (filter (\<lambda>x. P x \<or> Q x) xs) = length (filter P xs) + length (filter Q xs)"
  using assms by (induction xs) auto

lemma changed_snoc_right:
  assumes "keyHash c b \<notin> keyHash c ` set pb" "distinct (map (keyHash c) pa)"
  shows "length (changed c pa (pb @ [b]))
     = length (changed c pa pb)
       + (if \<exists>a\<in>set pa. keyHash c a = keyHash c b \<and> \<not> sameRows c a b then 1 else 0)"
proof -
  let ?P = "\<lambda>a. \<exists>b'\<in>set pb. keyHash c b' = keyHash c a \<and> \<not> sameRows c a b'"
  let ?Q = "\<lambda>a. keyHash c a = keyHash c b \<and> \<not> sameRows c a b"
  have e: "changed c pa (pb @ [b]) = filter (\<lambda>a. ?P a \<or> ?Q a) pa"
    by (auto simp: changed_def intro: filter_cong)
  have dis: "\<not> (?P a \<and> ?Q a)" for a
  proof
    assume "?P a \<and> ?Q a"
    then obtain b' where "b' \<in> set pb" "keyHash c b' = keyHash c b" by auto
    then have "keyHash c b \<in> keyHash c ` set pb"
      by (intro image_eqI [where x = b']) simp_all
    with assms(1) show False ..
  qed
  have "length (filter (\<lambda>a. ?P a \<or> ?Q a) pa) = length (filter ?P pa) + length (filter ?Q pa)"
    using dis by (rule filter_disjoint_or)
  with e show ?thesis
    using length_filter_unique [OF assms(2), of "keyHash c b" "\<lambda>a. \<not> sameRows c a b"]
    by (simp add: changed_def)
qed

subsection \<open>Caches that hold the unmatched rows\<close>

lemma keyed_cacheDelete: "keyed c cache \<Longrightarrow> keyed c (cacheDelete h cache)"
  by (auto simp: keyed_def cacheDelete_def)

lemma rows_cacheDelete:
  assumes "keyed c cache"
  shows "pendingRows (cacheDelete h cache) = filter (\<lambda>r. keyHash c r \<noteq> h) (pendingRows cache)"
  using assms by (induction cache) (auto simp: keyed_def cacheDelete_def pendingRows_def)

lemma cacheStore_fresh:
  assumes "h \<notin> fst ` set cache"
  shows "cacheStore h r cache = cache @ [(h, r)]"
  using assms by (induction cache) auto

lemma pendingRows_snoc: "pendingRows (cache @ [(h, r)]) = pendingRows cache @ [r]"
  by (simp add: pendingRows_def)

lemma keyed_snoc: "keyed c cache \<Longrightarrow> keyed c (cache @ [(keyHash c r, r)])"
  by (simp add: keyed_def)

lemma keyed_keys:
  assumes "keyed c cache"
  shows "fst ` set cache = keyHash c ` set (pendingRows cache)"
  using assms by (force simp: keyed_def pendingRows_def)

lemma keyed_lookup:
  assumes "keyed c cache"
  shows "(case map_of cache h of
            None \<Rightarrow> h \<notin> keyHash c ` set (pendingRows cache)
          | Some r \<Rightarrow> r \<in> set (pendingRows cache) \<and> keyHash c r = h)"
proof (cases "map_of cache h")
  case None
  then have "h \<notin> fst ` set cache" by (simp add: map_of_eq_None_iff)
  with keyed_keys [OF assms] None show ?thesis by simp
next
  case (Some r)
  then have "(h, r) \<in> set cache" by (rule map_of_SomeD)
  with assms Some show ?thesis by (force simp: keyed_def pendingRows_def)
qed

lemma lookup_exact:
  assumes k: "keyed c cache"
    and e: "mset (pendingRows cache) = mset (unmatched c pb pa)"
    and f: "keyHash c a \<notin> keyHash c ` set pa"
  shows "case map_of cache (keyHash c a) of
           None \<Rightarrow> keyHash c a \<notin> keyHash c ` set pb
         | Some alt \<Rightarrow> alt \<in> set pb \<and> keyHash c alt = keyHash c a"
proof -
  from e have s: "set (pendingRows cache) = set (unmatched c pb pa)"
    by (rule mset_eq_setD)
  show ?thesis
  proof (cases "map_of cache (keyHash c a)")
    case None
    with keyed_lookup [OF k, of "keyHash c a"]
    have n: "keyHash c a \<notin> keyHash c ` set (unmatched c pb pa)"
      by (simp add: s)
    have "keyHash c a \<notin> keyHash c ` set pb"
    proof
      assume "keyHash c a \<in> keyHash c ` set pb"
      then obtain b where b: "b \<in> set pb" "keyHash c a = keyHash c b" by auto
      with f have "b \<in> set (unmatched c pb pa)" by (simp add: unmatched_def)
      with b(2) n show False by auto
    qed
    with None show ?thesis by simp
  next
    case (Some alt)
    with keyed_lookup [OF k, of "keyHash c a"]
    have "alt \<in> set (unmatched c pb pa)" "keyHash c alt = keyHash c a"
      by (simp_all add: s)
    with Some show ?thesis by (simp add: unmatched_def)
  qed
qed

lemma unique_key:
  assumes "distinct (map f xs)" "x \<in> set xs" "y \<in> set xs" "f x = f y"
  shows "x = y"
  using assms by (meson distinct_map inj_onD)

lemma store_fresh_row:
  assumes k: "keyed c cache"
    and s: "set (pendingRows cache) \<subseteq> set pa"
    and f: "keyHash c a \<notin> keyHash c ` set pa"
  shows "cacheStore (keyHash c a) a cache = cache @ [(keyHash c a, a)]"
proof -
  from keyed_keys [OF k] s f have "keyHash c a \<notin> fst ` set cache" by auto
  then show ?thesis by (rule cacheStore_fresh)
qed

lemma probeA_step:
  assumes R: "reconciled c pa pb st"
    and np: "emitted CHR ''+'' (written st) = []"
    and f: "keyHash c a \<notin> keyHash c ` set pa"
    and d: "distinct (map (keyHash c) pb)"
  shows "reconciled c (pa @ [a]) pb (probeA c a (keyHash c a) st)
       \<and> emitted CHR ''+'' (written (probeA c a (keyHash c a) st)) = emitted CHR ''+'' (written st)
       \<and> emitted CHR ''-'' (written (probeA c a (keyHash c a) st)) = emitted CHR ''-'' (written st)"
proof -
  let ?h = "keyHash c a" and ?st = "probeA c a (keyHash c a) st"
  from R have kA: "keyed c (cacheA st)" and kB: "keyed c (cacheB st)"
    and eA: "mset (pendingRows (cacheA st)) + mset (emitted CHR ''-'' (written st))
               = mset (unmatched c pa pb)"
    and eB: "mset (pendingRows (cacheB st)) = mset (unmatched c pb pa)"
    and cR: "removedCount st = of_nat (length (emitted CHR ''-'' (written st)))"
    and cA: "addedCount st = of_nat (length (emitted CHR ''+'' (written st)))"
    and cM: "modifiedCount st = of_nat (length (changed c pa pb))"
    using np by (simp_all add: reconciled_def)
  have sub: "set (pendingRows (cacheA st)) \<subseteq> set pa"
  proof -
    have "set_mset (mset (pendingRows (cacheA st))) \<subseteq> set_mset (mset (unmatched c pa pb))"
      unfolding eA [symmetric] by simp
    then show ?thesis by (auto simp: unmatched_def)
  qed
  have E: "emitted CHR ''+'' (written ?st) = emitted CHR ''+'' (written st)"
    "emitted CHR ''-'' (written ?st) = emitted CHR ''-'' (written st)"
    "addedCount ?st = addedCount st" "removedCount ?st = removedCount st"
    "cacheB ?st = cacheDelete ?h (cacheB st)"
    using probeA_effect [of "CHR ''+''" c a ?h st] probeA_effect [of "CHR ''-''" c a ?h st]
    by simp_all
  have CA: "cacheA ?st
      = (case map_of (cacheB st) ?h of None \<Rightarrow> cacheStore ?h a (cacheA st) | Some _ \<Rightarrow> cacheA st)"
    and MC: "modifiedCount ?st = modifiedCount st
      + (case map_of (cacheB st) ?h of None \<Rightarrow> 0 | Some alt \<Rightarrow> if sameRows c a alt then 0 else 1)"
    using probeA_effect [of "CHR ''+''" c a ?h st] by simp_all
  note L = lookup_exact [OF kB eB f]
  have rB: "mset (pendingRows (cacheB ?st)) = mset (unmatched c pb (pa @ [a]))"
  proof -
    have "mset (pendingRows (cacheDelete ?h (cacheB st)))
        = filter_mset (\<lambda>r. keyHash c r \<noteq> ?h) (mset (pendingRows (cacheB st)))"
      by (simp only: rows_cacheDelete [OF kB] mset_filter)
    also have "\<dots> = filter_mset (\<lambda>r. keyHash c r \<noteq> ?h) (mset (unmatched c pb pa))"
      by (simp only: eB)
    also have "\<dots> = mset (unmatched c pb (pa @ [a]))"
      by (simp only: unmatched_snoc_right mset_filter)
    finally show ?thesis by (simp only: E)
  qed
  have kB': "keyed c (cacheB ?st)"
    using kB by (simp only: E keyed_cacheDelete)
  have "keyed c (cacheA ?st)
      \<and> mset (pendingRows (cacheA ?st)) + mset (emitted CHR ''-'' (written st))
          = mset (unmatched c (pa @ [a]) pb)
      \<and> modifiedCount ?st = of_nat (length (changed c (pa @ [a]) pb))"
  proof (cases "map_of (cacheB st) ?h")
    case None
    with L have nb: "?h \<notin> keyHash c ` set pb" by simp
    from None CA have cA': "cacheA ?st = cacheA st @ [(?h, a)]"
      by (simp add: store_fresh_row [OF kA sub f])
    have 1: "keyed c (cacheA ?st)"
      using kA by (simp only: cA' keyed_snoc)
    have 2: "mset (pendingRows (cacheA ?st)) + mset (emitted CHR ''-'' (written st))
               = mset (unmatched c (pa @ [a]) pb)"
      using eA nb by (simp add: cA' unmatched_snoc_left pendingRows_snoc)
    have "\<not> (\<exists>b\<in>set pb. keyHash c b = ?h \<and> \<not> sameRows c a b)"
      using nb by (metis image_eqI)
    with None MC cM have 3: "modifiedCount ?st = of_nat (length (changed c (pa @ [a]) pb))"
      by (simp add: changed_snoc_left)
    from 1 2 3 show ?thesis by blast
  next
    case (Some alt)
    with L have alt: "alt \<in> set pb" "keyHash c alt = ?h" by simp_all
    then have inb: "?h \<in> keyHash c ` set pb" by (metis image_eqI)
    from Some CA have cA': "cacheA ?st = cacheA st" by simp
    have 1: "keyed c (cacheA ?st)"
      using kA by (simp only: cA')
    have 2: "mset (pendingRows (cacheA ?st)) + mset (emitted CHR ''-'' (written st))
               = mset (unmatched c (pa @ [a]) pb)"
      using eA inb by (simp add: cA' unmatched_snoc_left)
    have "(\<exists>b\<in>set pb. keyHash c b = ?h \<and> \<not> sameRows c a b) \<longleftrightarrow> \<not> sameRows c a alt"
      using alt unique_key [OF d _ alt(1)] by metis
    with Some MC cM have 3: "modifiedCount ?st = of_nat (length (changed c (pa @ [a]) pb))"
      by (simp add: changed_snoc_left)
    from 1 2 3 show ?thesis by blast
  qed
  with kB' rB E cR cA np show ?thesis
    by (simp add: reconciled_def)
qed


lemma probeB_step:
  assumes R: "reconciled c pa pb st"
    and nm: "emitted CHR ''-'' (written st) = []"
    and f: "keyHash c b \<notin> keyHash c ` set pb"
    and d: "distinct (map (keyHash c) pa)"
  shows "reconciled c pa (pb @ [b]) (probeB c b (keyHash c b) st)
       \<and> emitted CHR ''+'' (written (probeB c b (keyHash c b) st)) = emitted CHR ''+'' (written st)
       \<and> emitted CHR ''-'' (written (probeB c b (keyHash c b) st)) = emitted CHR ''-'' (written st)"
proof -
  let ?h = "keyHash c b" and ?st = "probeB c b (keyHash c b) st"
  from R have kA: "keyed c (cacheA st)" and kB: "keyed c (cacheB st)"
    and eA: "mset (pendingRows (cacheA st)) = mset (unmatched c pa pb)"
    and eB: "mset (pendingRows (cacheB st)) + mset (emitted CHR ''+'' (written st))
               = mset (unmatched c pb pa)"
    and cR: "removedCount st = of_nat (length (emitted CHR ''-'' (written st)))"
    and cA: "addedCount st = of_nat (length (emitted CHR ''+'' (written st)))"
    and cM: "modifiedCount st = of_nat (length (changed c pa pb))"
    using nm by (simp_all add: reconciled_def)
  have sub: "set (pendingRows (cacheB st)) \<subseteq> set pb"
  proof -
    have "set_mset (mset (pendingRows (cacheB st))) \<subseteq> set_mset (mset (unmatched c pb pa))"
      unfolding eB [symmetric] by simp
    then show ?thesis by (auto simp: unmatched_def)
  qed
  have E: "emitted CHR ''+'' (written ?st) = emitted CHR ''+'' (written st)"
    "emitted CHR ''-'' (written ?st) = emitted CHR ''-'' (written st)"
    "addedCount ?st = addedCount st" "removedCount ?st = removedCount st"
    "cacheA ?st = cacheDelete ?h (cacheA st)"
    using probeB_effect [of "CHR ''+''" c b ?h st] probeB_effect [of "CHR ''-''" c b ?h st]
    by simp_all
  have CB: "cacheB ?st
      = (case map_of (cacheA st) ?h of None \<Rightarrow> cacheStore ?h b (cacheB st) | Some _ \<Rightarrow> cacheB st)"
    and MC: "modifiedCount ?st = modifiedCount st
      + (case map_of (cacheA st) ?h of None \<Rightarrow> 0 | Some alt \<Rightarrow> if sameRows c alt b then 0 else 1)"
    using probeB_effect [of "CHR ''+''" c b ?h st] by simp_all
  note L = lookup_exact [OF kA eA f]
  have rA: "mset (pendingRows (cacheA ?st)) = mset (unmatched c pa (pb @ [b]))"
  proof -
    have "mset (pendingRows (cacheDelete ?h (cacheA st)))
        = filter_mset (\<lambda>r. keyHash c r \<noteq> ?h) (mset (pendingRows (cacheA st)))"
      by (simp only: rows_cacheDelete [OF kA] mset_filter)
    also have "\<dots> = filter_mset (\<lambda>r. keyHash c r \<noteq> ?h) (mset (unmatched c pa pb))"
      by (simp only: eA)
    also have "\<dots> = mset (unmatched c pa (pb @ [b]))"
      by (simp only: unmatched_snoc_right mset_filter)
    finally show ?thesis by (simp only: E)
  qed
  have kA': "keyed c (cacheA ?st)"
    using kA by (simp only: E keyed_cacheDelete)
  note CH = changed_snoc_right [OF f d]
  have "keyed c (cacheB ?st)
      \<and> mset (pendingRows (cacheB ?st)) + mset (emitted CHR ''+'' (written st))
          = mset (unmatched c (pb @ [b]) pa)
      \<and> modifiedCount ?st = of_nat (length (changed c pa (pb @ [b])))"
  proof (cases "map_of (cacheA st) ?h")
    case None
    with L have na: "?h \<notin> keyHash c ` set pa" by simp
    from None CB have cB': "cacheB ?st = cacheB st @ [(?h, b)]"
      by (simp add: store_fresh_row [OF kB sub f])
    have 1: "keyed c (cacheB ?st)"
      using kB by (simp only: cB' keyed_snoc)
    have 2: "mset (pendingRows (cacheB ?st)) + mset (emitted CHR ''+'' (written st))
               = mset (unmatched c (pb @ [b]) pa)"
      using eB na by (simp add: cB' unmatched_snoc_left pendingRows_snoc)
    have "\<not> (\<exists>a\<in>set pa. keyHash c a = ?h \<and> \<not> sameRows c a b)"
      using na by (metis image_eqI)
    with None MC cM CH have 3: "modifiedCount ?st = of_nat (length (changed c pa (pb @ [b])))"
      by simp
    from 1 2 3 show ?thesis by blast
  next
    case (Some alt)
    with L have alt: "alt \<in> set pa" "keyHash c alt = ?h" by simp_all
    then have ina: "?h \<in> keyHash c ` set pa" by (metis image_eqI)
    from Some CB have cB': "cacheB ?st = cacheB st" by simp
    have 1: "keyed c (cacheB ?st)"
      using kB by (simp only: cB')
    have 2: "mset (pendingRows (cacheB ?st)) + mset (emitted CHR ''+'' (written st))
               = mset (unmatched c (pb @ [b]) pa)"
      using eB ina by (simp add: cB' unmatched_snoc_left)
    have "(\<exists>a\<in>set pa. keyHash c a = ?h \<and> \<not> sameRows c a b) \<longleftrightarrow> \<not> sameRows c alt b"
      using alt unique_key [OF d _ alt(1)] by metis
    with Some MC cM CH have 3: "modifiedCount ?st = of_nat (length (changed c pa (pb @ [b])))"
      by simp
    from 1 2 3 show ?thesis by blast
  qed
  with kA' rA E cR cA nm show ?thesis
    by (simp add: reconciled_def)
qed

lemma unmatched_snoc_both:
  assumes "keyHash c a = keyHash c b" "keyHash c a \<notin> keyHash c ` set pa"
  shows "unmatched c (pa @ [a]) (pb @ [b]) = unmatched c pa pb"
proof -
  have "filter (\<lambda>r. keyHash c r \<notin> keyHash c ` set (pb @ [b])) pa
           = filter (\<lambda>r. keyHash c r \<notin> keyHash c ` set pb) pa"
  proof (rule filter_cong [OF refl])
    fix r assume "r \<in> set pa"
    then have "keyHash c r \<noteq> keyHash c b"
      using assms by (metis image_eqI)
    then show "(keyHash c r \<notin> keyHash c ` set (pb @ [b])) = (keyHash c r \<notin> keyHash c ` set pb)"
      by simp
  qed
  with assms(1) show ?thesis by (simp add: unmatched_def)
qed

lemma changed_snoc_both:
  assumes e: "keyHash c a = keyHash c b"
    and fa: "keyHash c a \<notin> keyHash c ` set pa"
    and fb: "keyHash c b \<notin> keyHash c ` set pb"
  shows "changed c (pa @ [a]) (pb @ [b]) = changed c pa pb @ (if sameRows c a b then [] else [a])"
proof -
  have 1: "filter (\<lambda>r. \<exists>b'\<in>set (pb @ [b]). keyHash c b' = keyHash c r \<and> \<not> sameRows c r b') pa
           = filter (\<lambda>r. \<exists>b'\<in>set pb. keyHash c b' = keyHash c r \<and> \<not> sameRows c r b') pa"
  proof (rule filter_cong [OF refl])
    fix r assume "r \<in> set pa"
    then have "keyHash c b \<noteq> keyHash c r"
      using e fa by (metis image_eqI)
    then show "(\<exists>b'\<in>set (pb @ [b]). keyHash c b' = keyHash c r \<and> \<not> sameRows c r b')
        = (\<exists>b'\<in>set pb. keyHash c b' = keyHash c r \<and> \<not> sameRows c r b')"
      by simp
  qed
  have "keyHash c b' \<noteq> keyHash c a" if "b' \<in> set pb" for b'
    using that e fb by (metis image_eqI)
  then have "\<not> (\<exists>b'\<in>set pb. keyHash c b' = keyHash c a \<and> \<not> sameRows c a b')"
    by blast
  then have 2: "(\<exists>b'\<in>set (pb @ [b]). keyHash c b' = keyHash c a \<and> \<not> sameRows c a b')
      \<longleftrightarrow> \<not> sameRows c a b"
    using e by auto
  let ?F = "\<lambda>r. \<exists>b'\<in>set (pb @ [b]). keyHash c b' = keyHash c r \<and> \<not> sameRows c r b'"
  have A: "changed c (pa @ [a]) (pb @ [b]) = filter ?F pa @ filter ?F [a]"
    by (simp only: changed_def filter_append)
  have "filter ?F [a] = (if ?F a then [a] else [])"
    by (simp only: filter.simps)
  then have "filter ?F [a] = (if \<not> sameRows c a b then [a] else [])"
    by (simp only: 2)
  then have B: "filter ?F [a] = (if sameRows c a b then [] else [a])"
    by simp
  have C: "filter ?F pa = changed c pa pb"
    by (simp only: 1 changed_def)
  from A B C show ?thesis by (simp only:)
qed

lemma aligned_step:
  assumes R: "reconciled c pa pb st"
    and e: "keyHash c a = keyHash c b"
    and fa: "keyHash c a \<notin> keyHash c ` set pa"
    and fb: "keyHash c b \<notin> keyHash c ` set pb"
  shows "reconciled c (pa @ [a]) (pb @ [b]) (aligned c a b st)
       \<and> emitted CHR ''+'' (written (aligned c a b st)) = emitted CHR ''+'' (written st)
       \<and> emitted CHR ''-'' (written (aligned c a b st)) = emitted CHR ''-'' (written st)"
proof -
  have E: "emitted CHR ''+'' (written (aligned c a b st)) = emitted CHR ''+'' (written st)"
    "emitted CHR ''-'' (written (aligned c a b st)) = emitted CHR ''-'' (written st)"
    "addedCount (aligned c a b st) = addedCount st"
    "removedCount (aligned c a b st) = removedCount st"
    "cacheA (aligned c a b st) = cacheA st" "cacheB (aligned c a b st) = cacheB st"
    "modifiedCount (aligned c a b st) = modifiedCount st + (if sameRows c a b then 0 else 1)"
    using aligned_effect [of "CHR ''+''" c a b st] aligned_effect [of "CHR ''-''" c a b st]
    by simp_all
  have U: "unmatched c (pa @ [a]) (pb @ [b]) = unmatched c pa pb"
    "unmatched c (pb @ [b]) (pa @ [a]) = unmatched c pb pa"
    using unmatched_snoc_both [OF e fa] unmatched_snoc_both [OF e [symmetric] fb] by simp_all
  from R show ?thesis
    by (simp add: reconciled_def E U changed_snoc_both [OF e fa fb])
qed

subsection \<open>One iteration\<close>

lemma reconciled_cong:
  assumes "cacheA st = cacheA st2" "cacheB st = cacheB st2"
    and "emitted CHR ''-'' (written st) = emitted CHR ''-'' (written st2)"
    and "emitted CHR ''+'' (written st) = emitted CHR ''+'' (written st2)"
    and "removedCount st = removedCount st2" "addedCount st = addedCount st2"
    and "modifiedCount st = modifiedCount st2"
  shows "reconciled c pa pb st = reconciled c pa pb st2"
  using assms by (simp add: reconciled_def)

lemma hashRow_keyHash:
  assumes "hashRow r (keys c) = Inr h"
  shows "keyHash c r = h"
  using assms by (simp add: keyHash_def)

lemma body_both:
  assumes "body c (Some a) (Some b) st = Inr st'"
  shows "st' = (if keyHash c a = keyHash c b
                then aligned c a b (st\<lparr>totalCount := totalCount st + 1\<rparr>)
                else probeB c b (keyHash c b)
                       (probeA c a (keyHash c a) (st\<lparr>totalCount := totalCount st + 1\<rparr>)))"
proof -
  from assms obtain hA hB where h: "hashRow a (keys c) = Inr hA" "hashRow b (keys c) = Inr hB"
    by (auto simp: body_def pair_def split: sum.splits if_splits)
  with assms show ?thesis
    by (auto simp: body_def pair_def fields_def hashRow_keyHash split: sum.splits if_splits)
qed

lemma body_onlyA:
  assumes "body c (Some a) None st = Inr st'"
  shows "st' = (case map_of (cacheB st) (keyHash c a) of
                  None \<Rightarrow>
                    (writeRow (delta a CHR ''-'') (st\<lparr>totalCount := totalCount st + 1\<rparr>))
                      \<lparr>removedCount := removedCount st + 1\<rparr>
                | Some alt \<Rightarrow>
                    aligned c a alt
                      (st\<lparr>totalCount := totalCount st + 1,
                          cacheB := cacheDelete (keyHash c a) (cacheB st)\<rparr>))"
proof -
  from assms obtain hA where h: "hashRow a (keys c) = Inr hA"
    by (auto simp: body_def pair_def split: sum.splits if_splits)
  with assms show ?thesis
    by (auto simp: body_def pair_def fields_def searchCache_def hashRow_keyHash
             split: sum.splits if_splits option.splits)
qed

lemma body_onlyB:
  assumes "body c None (Some b) st = Inr st'"
  shows "st' = (case map_of (cacheA st) (keyHash c b) of
                  None \<Rightarrow>
                    (writeRow (delta b CHR ''+'') (st\<lparr>totalCount := totalCount st + 1\<rparr>))
                      \<lparr>addedCount := addedCount st + 1\<rparr>
                | Some alt \<Rightarrow>
                    aligned c alt b
                      (st\<lparr>totalCount := totalCount st + 1,
                          cacheA := cacheDelete (keyHash c b) (cacheA st)\<rparr>))"
proof -
  from assms obtain hB where h: "hashRow b (keys c) = Inr hB"
    by (auto simp: body_def pair_def split: sum.splits if_splits)
  with assms show ?thesis
    by (auto simp: body_def pair_def fields_def searchCache_def hashRow_keyHash
             split: sum.splits if_splits option.splits)
qed


lemma reconciled_totalCount:
  "reconciled c pa pb (st\<lparr>totalCount := n\<rparr>) = reconciled c pa pb st"
  by (simp add: reconciled_def)

lemma step_both:
  assumes R: "reconciled c pa pb st"
    and np: "emitted CHR ''+'' (written st) = []"
    and nm: "emitted CHR ''-'' (written st) = []"
    and da: "distinct (map (keyHash c) (pa @ [a]))"
    and db: "distinct (map (keyHash c) (pb @ [b]))"
    and b: "body c (Some a) (Some b) st = Inr st'"
  shows "reconciled c (pa @ [a]) (pb @ [b]) st'
       \<and> emitted CHR ''+'' (written st') = [] \<and> emitted CHR ''-'' (written st') = []"
proof -
  let ?s1 = "st\<lparr>totalCount := totalCount st + 1\<rparr>"
  from da have fa: "keyHash c a \<notin> keyHash c ` set pa" and dpa: "distinct (map (keyHash c) pa)"
    by simp_all
  from db have fb: "keyHash c b \<notin> keyHash c ` set pb" and dpb: "distinct (map (keyHash c) pb)"
    by simp_all
  from R have R1: "reconciled c pa pb ?s1" by (simp add: reconciled_totalCount)
  have w1: "emitted CHR ''+'' (written ?s1) = []" "emitted CHR ''-'' (written ?s1) = []"
    using np nm by simp_all
  show ?thesis
  proof (cases "keyHash c a = keyHash c b")
    case True
    with body_both [OF b] have "st' = aligned c a b ?s1" by simp
    with aligned_step [OF R1 True fa fb] w1 show ?thesis by simp
  next
    case False
    with body_both [OF b]
    have st': "st' = probeB c b (keyHash c b) (probeA c a (keyHash c a) ?s1)" by simp
    let ?s2 = "probeA c a (keyHash c a) ?s1"
    from probeA_step [OF R1 w1(1) fa dpb] w1
    have R2: "reconciled c (pa @ [a]) pb ?s2"
      and w2: "emitted CHR ''+'' (written ?s2) = []" "emitted CHR ''-'' (written ?s2) = []"
      by simp_all
    from probeB_step [OF R2 w2(2) fb da] w2 show ?thesis
      by (simp add: st')
  qed
qed

lemma cacheDelete_absent:
  assumes "map_of cache h = None"
  shows "cacheDelete h cache = cache"
proof -
  from assms have "h \<notin> fst ` set cache" by (simp add: map_of_eq_None_iff)
  then show ?thesis by (auto simp: cacheDelete_def filter_id_conv)
qed

lemma step_onlyA:
  assumes R: "reconciled c pa pb st"
    and np: "emitted CHR ''+'' (written st) = []"
    and fa: "keyHash c a \<notin> keyHash c ` set pa"
    and dpb: "distinct (map (keyHash c) pb)"
    and b: "body c (Some a) None st = Inr st'"
  shows "reconciled c (pa @ [a]) pb st' \<and> emitted CHR ''+'' (written st') = []"
proof -
  let ?h = "keyHash c a"
  let ?s1 = "st\<lparr>totalCount := totalCount st + 1\<rparr>"
  let ?p = "probeA c a ?h ?s1"
  from R have R1: "reconciled c pa pb ?s1" by (simp add: reconciled_totalCount)
  have w1: "emitted CHR ''+'' (written ?s1) = []"
    using np by simp
  note PS = probeA_step [OF R1 w1 fa dpb]
  have PE: "emitted CHR ''+'' (written ?p) = emitted CHR ''+'' (written ?s1)"
    "emitted CHR ''-'' (written ?p) = emitted CHR ''-'' (written ?s1)"
    "addedCount ?p = addedCount ?s1" "removedCount ?p = removedCount ?s1"
    "cacheB ?p = cacheDelete ?h (cacheB ?s1)"
    "cacheA ?p = (case map_of (cacheB ?s1) ?h of
                    None \<Rightarrow> cacheStore ?h a (cacheA ?s1) | Some _ \<Rightarrow> cacheA ?s1)"
    "modifiedCount ?p = modifiedCount ?s1
       + (case map_of (cacheB ?s1) ?h of None \<Rightarrow> 0
          | Some alt \<Rightarrow> if sameRows c a alt then 0 else 1)"
    using probeA_effect [of "CHR ''+''" c a ?h ?s1] probeA_effect [of "CHR ''-''" c a ?h ?s1]
    by simp_all
  show ?thesis
  proof (cases "map_of (cacheB st) ?h")
    case (Some alt)
    let ?s2 = "st\<lparr>totalCount := totalCount st + 1, cacheB := cacheDelete ?h (cacheB st)\<rparr>"
    from Some body_onlyA [OF b] have st': "st' = aligned c a alt ?s2" by simp
    have AE: "emitted CHR ''+'' (written st') = emitted CHR ''+'' (written ?s2)"
      "emitted CHR ''-'' (written st') = emitted CHR ''-'' (written ?s2)"
      "addedCount st' = addedCount ?s2" "removedCount st' = removedCount ?s2"
      "cacheA st' = cacheA ?s2" "cacheB st' = cacheB ?s2"
      "modifiedCount st' = modifiedCount ?s2 + (if sameRows c a alt then 0 else 1)"
      using aligned_effect [of "CHR ''+''" c a alt ?s2] aligned_effect [of "CHR ''-''" c a alt ?s2]
      unfolding st' by simp_all
    have "reconciled c (pa @ [a]) pb st' = reconciled c (pa @ [a]) pb ?p"
      using Some by (intro reconciled_cong) (simp_all add: AE PE)
    with PS AE np show ?thesis by simp
  next
    case None
    from None body_onlyA [OF b]
    have st': "st' = (writeRow (delta a CHR ''-'') ?s1)\<lparr>removedCount := removedCount st + 1\<rparr>"
      by simp
    from R np have kA: "keyed c (cacheA st)" and kB: "keyed c (cacheB st)"
      and eA: "mset (pendingRows (cacheA st)) + mset (emitted CHR ''-'' (written st))
               = mset (unmatched c pa pb)"
      and eB: "mset (pendingRows (cacheB st)) = mset (unmatched c pb pa)"
      and cR: "removedCount st = of_nat (length (emitted CHR ''-'' (written st)))"
      and cA: "addedCount st = of_nat (length (emitted CHR ''+'' (written st)))"
      and cM: "modifiedCount st = of_nat (length (changed c pa pb))"
      by (simp_all add: reconciled_def)
    from lookup_exact [OF kB eB fa] None have nb: "?h \<notin> keyHash c ` set pb" by simp
    have 1: "mset (pendingRows (cacheA st)) + mset (emitted CHR ''-'' (written st')) 
               = mset (unmatched c (pa @ [a]) pb)"
      using eA nb by (simp add: st' writeRow_def emitted_delta unmatched_snoc_left)
    have 2: "mset (pendingRows (cacheB st)) = mset (unmatched c pb (pa @ [a]))"
    proof -
      have "mset (pendingRows (cacheDelete ?h (cacheB st)))
          = filter_mset (\<lambda>r. keyHash c r \<noteq> ?h) (mset (pendingRows (cacheB st)))"
        by (simp only: rows_cacheDelete [OF kB] mset_filter)
      also have "\<dots> = filter_mset (\<lambda>r. keyHash c r \<noteq> ?h) (mset (unmatched c pb pa))"
        by (simp only: eB)
      also have "\<dots> = mset (unmatched c pb (pa @ [a]))"
        by (simp only: unmatched_snoc_right mset_filter)
      finally show ?thesis by (simp only: cacheDelete_absent [OF None])
    qed
    have "\<not> (\<exists>b\<in>set pb. keyHash c b = ?h \<and> \<not> sameRows c a b)"
      using nb by (metis image_eqI)
    then have 3: "changed c (pa @ [a]) pb = changed c pa pb"
      by (simp add: changed_snoc_left)
    have 4: "emitted CHR ''+'' (written st') = []"
      using np by (simp add: st' writeRow_def emitted_delta)
    have 5: "removedCount st' = of_nat (length (emitted CHR ''-'' (written st')))"
      using cR by (simp add: st' writeRow_def emitted_delta)
    have 6: "cacheA st' = cacheA st" "cacheB st' = cacheB st" "addedCount st' = addedCount st"
      "modifiedCount st' = modifiedCount st"
      by (simp_all add: st' writeRow_def)
    from kA kB 1 2 3 4 5 6 cA cM np show ?thesis
      by (simp add: reconciled_def)
  qed
qed


lemma step_onlyB:
  assumes R: "reconciled c pa pb st"
    and nm: "emitted CHR ''-'' (written st) = []"
    and fb: "keyHash c b \<notin> keyHash c ` set pb"
    and dpa: "distinct (map (keyHash c) pa)"
    and b: "body c None (Some b) st = Inr st'"
  shows "reconciled c pa (pb @ [b]) st' \<and> emitted CHR ''-'' (written st') = []"
proof -
  let ?h = "keyHash c b"
  let ?s1 = "st\<lparr>totalCount := totalCount st + 1\<rparr>"
  let ?p = "probeB c b ?h ?s1"
  from R have R1: "reconciled c pa pb ?s1" by (simp add: reconciled_totalCount)
  have w1: "emitted CHR ''-'' (written ?s1) = []"
    using nm by simp
  note PS = probeB_step [OF R1 w1 fb dpa]
  have PE: "emitted CHR ''+'' (written ?p) = emitted CHR ''+'' (written ?s1)"
    "emitted CHR ''-'' (written ?p) = emitted CHR ''-'' (written ?s1)"
    "addedCount ?p = addedCount ?s1" "removedCount ?p = removedCount ?s1"
    "cacheA ?p = cacheDelete ?h (cacheA ?s1)"
    "cacheB ?p = (case map_of (cacheA ?s1) ?h of
                    None \<Rightarrow> cacheStore ?h b (cacheB ?s1) | Some _ \<Rightarrow> cacheB ?s1)"
    "modifiedCount ?p = modifiedCount ?s1
       + (case map_of (cacheA ?s1) ?h of None \<Rightarrow> 0
          | Some alt \<Rightarrow> if sameRows c alt b then 0 else 1)"
    using probeB_effect [of "CHR ''+''" c b ?h ?s1] probeB_effect [of "CHR ''-''" c b ?h ?s1]
    by simp_all
  show ?thesis
  proof (cases "map_of (cacheA st) ?h")
    case (Some alt)
    let ?s2 = "st\<lparr>totalCount := totalCount st + 1, cacheA := cacheDelete ?h (cacheA st)\<rparr>"
    from Some body_onlyB [OF b] have st': "st' = aligned c alt b ?s2" by simp
    have AE: "emitted CHR ''+'' (written st') = emitted CHR ''+'' (written ?s2)"
      "emitted CHR ''-'' (written st') = emitted CHR ''-'' (written ?s2)"
      "addedCount st' = addedCount ?s2" "removedCount st' = removedCount ?s2"
      "cacheA st' = cacheA ?s2" "cacheB st' = cacheB ?s2"
      "modifiedCount st' = modifiedCount ?s2 + (if sameRows c alt b then 0 else 1)"
      using aligned_effect [of "CHR ''+''" c alt b ?s2] aligned_effect [of "CHR ''-''" c alt b ?s2]
      unfolding st' by simp_all
    have "reconciled c pa (pb @ [b]) st' = reconciled c pa (pb @ [b]) ?p"
      using Some by (intro reconciled_cong) (simp_all add: AE PE)
    with PS AE nm show ?thesis by simp
  next
    case None
    from None body_onlyB [OF b]
    have st': "st' = (writeRow (delta b CHR ''+'') ?s1)\<lparr>addedCount := addedCount st + 1\<rparr>"
      by simp
    from R nm have kA: "keyed c (cacheA st)" and kB: "keyed c (cacheB st)"
      and eA: "mset (pendingRows (cacheA st)) = mset (unmatched c pa pb)"
      and eB: "mset (pendingRows (cacheB st)) + mset (emitted CHR ''+'' (written st))
               = mset (unmatched c pb pa)"
      and cR: "removedCount st = of_nat (length (emitted CHR ''-'' (written st)))"
      and cA: "addedCount st = of_nat (length (emitted CHR ''+'' (written st)))"
      and cM: "modifiedCount st = of_nat (length (changed c pa pb))"
      by (simp_all add: reconciled_def)
    from lookup_exact [OF kA eA fb] None have na: "?h \<notin> keyHash c ` set pa" by simp
    have 1: "mset (pendingRows (cacheB st)) + mset (emitted CHR ''+'' (written st'))
               = mset (unmatched c (pb @ [b]) pa)"
      using eB na by (simp add: st' writeRow_def emitted_delta unmatched_snoc_left)
    have 2: "mset (pendingRows (cacheA st)) = mset (unmatched c pa (pb @ [b]))"
    proof -
      have "mset (pendingRows (cacheDelete ?h (cacheA st)))
          = filter_mset (\<lambda>r. keyHash c r \<noteq> ?h) (mset (pendingRows (cacheA st)))"
        by (simp only: rows_cacheDelete [OF kA] mset_filter)
      also have "\<dots> = filter_mset (\<lambda>r. keyHash c r \<noteq> ?h) (mset (unmatched c pa pb))"
        by (simp only: eA)
      also have "\<dots> = mset (unmatched c pa (pb @ [b]))"
        by (simp only: unmatched_snoc_right mset_filter)
      finally show ?thesis by (simp only: cacheDelete_absent [OF None])
    qed
    have "\<not> (\<exists>a\<in>set pa. keyHash c a = ?h \<and> \<not> sameRows c a b)"
      using na by (metis image_eqI)
    with changed_snoc_right [OF fb dpa]
    have 3: "length (changed c pa (pb @ [b])) = length (changed c pa pb)"
      by simp
    have 4: "emitted CHR ''-'' (written st') = []"
      using nm by (simp add: st' writeRow_def emitted_delta)
    have 5: "addedCount st' = of_nat (length (emitted CHR ''+'' (written st')))"
      using cA by (simp add: st' writeRow_def emitted_delta)
    have 6: "cacheA st' = cacheA st" "cacheB st' = cacheB st" "removedCount st' = removedCount st"
      "modifiedCount st' = modifiedCount st"
      by (simp_all add: st' writeRow_def)
    from kA kB 1 2 3 4 5 6 cR cM nm show ?thesis
      by (simp add: reconciled_def)
  qed
qed

subsection \<open>The whole loop\<close>

lemma loop_reconciled_onlyA:
  assumes "[] \<notin> set as"
    and "distinct (map (keyHash c) (pa @ as))" "distinct (map (keyHash c) pb)"
    and "reconciled c pa pb st"
    and "as \<noteq> [] \<longrightarrow> emitted CHR ''+'' (written st) = []"
    and "eofA \<longrightarrow> as = []"
    and "loop c (fileOf as) (fileOf []) eofA eofB st = Inr st'"
  shows "reconciled c (pa @ as) pb st'"
  using assms
proof (induction as arbitrary: pa st eofA eofB)
  case Nil
  then show ?case by (simp add: loop_Nil_Nil)
next
  case (Cons a as)
  from Cons.prems(1) have a: "a \<noteq> []" and as: "[] \<notin> set as" by auto
  from Cons.prems(6) have eA: "eofA = False" by simp
  from Cons.prems(7) obtain s1 where b: "body c (Some a) None st = Inr s1"
    and l: "loop c (fileOf as) (fileOf []) False True s1 = Inr st'"
    unfolding eA loop_Cons_Nil [OF a] by (auto split: sum.splits)
  from Cons.prems(2) have fa: "keyHash c a \<notin> keyHash c ` set pa"
    and d': "distinct (map (keyHash c) ((pa @ [a]) @ as))"
    by simp_all
  from Cons.prems(5) have np: "emitted CHR ''+'' (written st) = []" by simp
  from step_onlyA [OF Cons.prems(4) np fa Cons.prems(3) b]
  have R: "reconciled c (pa @ [a]) pb s1" and np': "emitted CHR ''+'' (written s1) = []"
    by simp_all
  have "reconciled c ((pa @ [a]) @ as) pb st'"
    using as d' Cons.prems(3) R np' l
    by (intro Cons.IH [where eofA = False and eofB = True and st = s1]) simp_all
  then show ?case by simp
qed

lemma loop_reconciled_onlyB:
  assumes "[] \<notin> set bs"
    and "distinct (map (keyHash c) pa)" "distinct (map (keyHash c) (pb @ bs))"
    and "reconciled c pa pb st"
    and "bs \<noteq> [] \<longrightarrow> emitted CHR ''-'' (written st) = []"
    and "eofB \<longrightarrow> bs = []"
    and "loop c (fileOf []) (fileOf bs) eofA eofB st = Inr st'"
  shows "reconciled c pa (pb @ bs) st'"
  using assms
proof (induction bs arbitrary: pb st eofA eofB)
  case Nil
  then show ?case by (simp add: loop_Nil_Nil)
next
  case (Cons b bs)
  from Cons.prems(1) have b0: "b \<noteq> []" and bs: "[] \<notin> set bs" by auto
  from Cons.prems(6) have eB: "eofB = False" by simp
  from Cons.prems(7) obtain s1 where b: "body c None (Some b) st = Inr s1"
    and l: "loop c (fileOf []) (fileOf bs) True False s1 = Inr st'"
    unfolding eB loop_Nil_Cons [OF b0] by (auto split: sum.splits)
  from Cons.prems(3) have fb: "keyHash c b \<notin> keyHash c ` set pb"
    and d': "distinct (map (keyHash c) ((pb @ [b]) @ bs))"
    by simp_all
  from Cons.prems(5) have nm: "emitted CHR ''-'' (written st) = []" by simp
  from step_onlyB [OF Cons.prems(4) nm fb Cons.prems(2) b]
  have R: "reconciled c pa (pb @ [b]) s1" and nm': "emitted CHR ''-'' (written s1) = []"
    by simp_all
  have "reconciled c pa ((pb @ [b]) @ bs) st'"
    using bs d' Cons.prems(2) R nm' l
    by (intro Cons.IH [where eofA = True and eofB = False and st = s1]) simp_all
  then show ?case by simp
qed

lemma loop_reconciled:
  assumes "[] \<notin> set as" "[] \<notin> set bs"
    and "distinct (map (keyHash c) (pa @ as))" "distinct (map (keyHash c) (pb @ bs))"
    and "reconciled c pa pb st"
    and "emitted CHR ''+'' (written st) = []" "emitted CHR ''-'' (written st) = []"
    and "loop c (fileOf as) (fileOf bs) False False st = Inr st'"
  shows "reconciled c (pa @ as) (pb @ bs) st'"
  using assms
proof (induction as bs arbitrary: pa pb st rule: list_induct2')
  case 1
  then show ?case by (simp add: loop_Nil_Nil)
next
  case (2 a as)
  from 2(3) 2(4) 2(5) 2(6) 2(1) 2(8)
  have "reconciled c (pa @ (a # as)) pb st'"
    by (intro loop_reconciled_onlyA [where eofA = False and eofB = False and st = st]) simp_all
  then show ?case by simp
next
  case (3 b bs)
  from 3(3) 3(4) 3(5) 3(7) 3(2) 3(8)
  have "reconciled c pa (pb @ (b # bs)) st'"
    by (intro loop_reconciled_onlyB [where eofA = False and eofB = False and st = st]) simp_all
  then show ?case by simp
next
  case (4 a as b bs)
  from 4(2) have a: "a \<noteq> []" and as: "[] \<notin> set as" by auto
  from 4(3) have b0: "b \<noteq> []" and bs: "[] \<notin> set bs" by auto
  from 4(9) obtain s1 where b: "body c (Some a) (Some b) st = Inr s1"
    and l: "loop c (fileOf as) (fileOf bs) False False s1 = Inr st'"
    unfolding loop_Cons_Cons [OF a b0] by (auto split: sum.splits)
  from 4(4) have da: "distinct (map (keyHash c) (pa @ [a]))"
    and da': "distinct (map (keyHash c) ((pa @ [a]) @ as))"
    by simp_all
  from 4(5) have db: "distinct (map (keyHash c) (pb @ [b]))"
    and db': "distinct (map (keyHash c) ((pb @ [b]) @ bs))"
    by simp_all
  from step_both [OF 4(6) 4(7) 4(8) da db b]
  have R: "reconciled c (pa @ [a]) (pb @ [b]) s1"
    and w: "emitted CHR ''+'' (written s1) = []" "emitted CHR ''-'' (written s1) = []"
    by simp_all
  have "reconciled c ((pa @ [a]) @ as) ((pb @ [b]) @ bs) st'"
    using as bs da' db' R w l
    by (intro 4(1) [where st = s1]) simp_all
  then show ?case by simp
qed

subsection \<open>The drain and the whole run\<close>

lemma emitted_app: "emitted s (w @ w') = emitted s w @ emitted s w'"
  by (simp add: emitted_def)

lemma emitted_deltas:
  "emitted s (map (\<lambda>kv. delta (snd kv) t) cache) = (if s = t then pendingRows cache else [])"
  by (induction cache) (auto simp: emitted_def delta_def pendingRows_def)

lemma drainA_fold:
  "fold (\<lambda>kv s. (writeRow (delta (snd kv) CHR ''-'') s)\<lparr>removedCount := removedCount s + 1\<rparr>) cache st
     = st\<lparr>written := written st @ map (\<lambda>kv. delta (snd kv) CHR ''-'') cache,
          removedCount := removedCount st + of_nat (length cache)\<rparr>"
  by (induction cache arbitrary: st) (simp_all add: writeRow_def)

lemma drainB_fold:
  "fold (\<lambda>kv s. (writeRow (delta (snd kv) CHR ''+'') s)\<lparr>addedCount := addedCount s + 1\<rparr>) cache st
     = st\<lparr>written := written st @ map (\<lambda>kv. delta (snd kv) CHR ''+'') cache,
          addedCount := addedCount st + of_nat (length cache)\<rparr>"
  by (induction cache arbitrary: st) (simp_all add: writeRow_def)

lemma drain_state:
  "drainB (drainA st)
     = st\<lparr>written := written st @ map (\<lambda>kv. delta (snd kv) CHR ''-'') (cacheA st)
                       @ map (\<lambda>kv. delta (snd kv) CHR ''+'') (cacheB st),
          removedCount := removedCount st + of_nat (length (cacheA st)),
          addedCount := addedCount st + of_nat (length (cacheB st))\<rparr>"
  by (simp add: drainA_def drainB_def drainA_fold drainB_fold)

lemma length_pendingRows: "length (pendingRows cache) = length cache"
  by (simp add: pendingRows_def)

lemma drain_reconciled:
  assumes "reconciled c as bs st"
  shows "mset (emitted CHR ''-'' (written (drainB (drainA st)))) = mset (unmatched c as bs)
       \<and> mset (emitted CHR ''+'' (written (drainB (drainA st)))) = mset (unmatched c bs as)
       \<and> removedCount (drainB (drainA st)) = of_nat (length (unmatched c as bs))
       \<and> addedCount (drainB (drainA st)) = of_nat (length (unmatched c bs as))
       \<and> modifiedCount (drainB (drainA st)) = of_nat (length (changed c as bs))"
proof -
  from assms have eA: "mset (pendingRows (cacheA st)) + mset (emitted CHR ''-'' (written st))
               = mset (unmatched c as bs)"
    and eB: "mset (pendingRows (cacheB st)) + mset (emitted CHR ''+'' (written st))
               = mset (unmatched c bs as)"
    and cR: "removedCount st = of_nat (length (emitted CHR ''-'' (written st)))"
    and cA: "addedCount st = of_nat (length (emitted CHR ''+'' (written st)))"
    and cM: "modifiedCount st = of_nat (length (changed c as bs))"
    by (simp_all add: reconciled_def)
  from eA have lA: "length (unmatched c as bs)
      = length (pendingRows (cacheA st)) + length (emitted CHR ''-'' (written st))"
    by (metis size_mset size_union)
  from eB have lB: "length (unmatched c bs as)
      = length (pendingRows (cacheB st)) + length (emitted CHR ''+'' (written st))"
    by (metis size_mset size_union)
  have 1: "mset (emitted CHR ''-'' (written (drainB (drainA st)))) = mset (unmatched c as bs)"
    using eA by (simp add: drain_state emitted_app emitted_deltas add.commute)
  have 2: "mset (emitted CHR ''+'' (written (drainB (drainA st)))) = mset (unmatched c bs as)"
    using eB by (simp add: drain_state emitted_app emitted_deltas add.commute)
  have 3: "removedCount (drainB (drainA st)) = of_nat (length (unmatched c as bs))"
    using cR by (simp add: drain_state lA length_pendingRows)
  have 4: "addedCount (drainB (drainA st)) = of_nat (length (unmatched c bs as))"
    using cA by (simp add: drain_state lB length_pendingRows)
  have 5: "modifiedCount (drainB (drainA st)) = of_nat (length (changed c as bs))"
    using cM by (simp add: drain_state)
  from 1 2 3 4 5 show ?thesis by blast
qed

lemma reconciled_initial: "reconciled c [] [] initial"
  by (simp add: reconciled_def initial_def keyed_def pendingRows_def unmatched_def changed_def
      emitted_def)

lemma summary_written:
  assumes "summary st1 = Inr (status, st)"
  shows "written st = written st1"
  using assms by (auto simp: summary_def Let_def split: if_splits sum.splits)

text \<open>
  What a run that ends without fault has written and counted, when no two rows of the
  same input have the same key hash.
\<close>

lemma run_reconciles:
  assumes r: "run c (fileOf as) (fileOf bs) = Inr (status, st)"
    and "[] \<notin> set as" "[] \<notin> set bs"
    and "distinct (map (keyHash c) as)" "distinct (map (keyHash c) bs)"
  shows "mset (emitted CHR ''-'' (written st)) = mset (unmatched c as bs)
       \<and> mset (emitted CHR ''+'' (written st)) = mset (unmatched c bs as)
       \<and> removedCount st = of_nat (length (unmatched c as bs))
       \<and> addedCount st = of_nat (length (unmatched c bs as))
       \<and> modifiedCount st = of_nat (length (changed c as bs))"
proof -
  from r obtain s where l: "loop c (fileOf as) (fileOf bs) False False initial = Inr s"
    and s: "summary (drainB (drainA s)) = Inr (status, st)"
    by (auto simp: run_def Let_def split: sum.splits)
  have "reconciled c ([] @ as) ([] @ bs) s"
    using assms(2-5) l
    by (intro loop_reconciled [where st = initial])
       (simp_all add: reconciled_initial, simp_all add: initial_def emitted_def)
  then have "reconciled c as bs s" by simp
  from drain_reconciled [OF this] summary_status [OF s] summary_written [OF s]
  show ?thesis by simp
qed

subsection \<open>Runs that cannot fault\<close>

lemma uint_of_nonneg_sint:
  fixes k :: "64 word"
  assumes "0 \<le> sint k"
  shows "uint k = sint k"
proof -
  have "sint k < 2 ^ 64"
    using sint_lt [of k] by simp
  with assms have "take_bit 64 (sint k) = sint k"
    by (intro take_bit_int_eq_self) simp_all
  then show ?thesis
    using uint_sint [of k] by simp
qed

lemma hashKeys_total:
  assumes "\<forall>k\<in>set ks. 0 \<le> sint k \<and> sint k < int (length r)"
  shows "\<exists>h'. hashKeys r ks h = Inr h'"
  using assms
proof (induction ks arbitrary: h)
  case Nil
  show ?case by simp
next
  case (Cons k ks)
  then have "uint k < int (length r)"
    by (simp add: uint_of_nonneg_sint)
  with Cons show ?case by simp
qed

lemma body_total:
  assumes "inRange c a" "inRange c b"
  shows "\<exists>st'. body c (Some a) (Some b) st = Inr st'"
proof -
  from assms obtain hA hB where h: "hashRow a (keys c) = Inr hA" "hashRow b (keys c) = Inr hB"
    using hashKeys_total [of "keys c" a offset64] hashKeys_total [of "keys c" b offset64]
    by (auto simp: inRange_def hashRow_def)
  from assms have "checkKeys (keys c) (Some a) (Some b) = Inr ()"
    by (intro checkKeys_passes) (simp add: inRange_def len_def)
  moreover from assms have "checkIgnored (ignoredFields c) (Some a) (Some b) = Inr ()"
    by (intro checkIgnored_passes) (simp add: inRange_def len_def)
  ultimately have "checkRow (Some a) (Some b) c = Inr ()"
    by (simp add: checkRow_def)
  with h show ?thesis
    by (simp add: body_def pair_def)
qed

lemma loop_total:
  assumes "length as = length bs" "\<forall>r\<in>set as. inRange c r" "\<forall>r\<in>set bs. inRange c r"
  shows "\<exists>st'. loop c (fileOf as) (fileOf bs) False False st = Inr st'"
  using assms
proof (induction as bs arbitrary: st rule: list_induct2)
  case Nil
  show ?case by (simp add: loop_Nil_Nil)
next
  case (Cons a as b bs)
  then have ab: "inRange c a" "inRange c b" by simp_all
  then have ne: "a \<noteq> []" "b \<noteq> []" by (simp_all add: inRange_def)
  from body_total [OF ab] obtain s1 where "body c (Some a) (Some b) st = Inr s1" by blast
  with Cons.IH [of s1] Cons.prems show ?case
    by (simp add: loop_Cons_Cons [OF ne])
qed

lemma count_written:
  "count (mset w) (delta r s) = count (mset (emitted s w)) r"
proof (induction w)
  case Nil
  show ?case by (simp add: emitted_def)
next
  case (Cons row w)
  have "(row = delta r s) = (take 1 row = [[s]] \<and> drop 1 row = r)"
    by (cases row) (auto simp: delta_def)
  with Cons show ?case
    by (auto simp: emitted_def)
qed

lemma count_unmatched:
  assumes "distinct (map (keyHash c) as)" "r \<in> set as" "keyHash c r \<notin> keyHash c ` set bs"
  shows "count (mset (unmatched c as bs)) r = 1"
proof -
  from assms(1) have "distinct as" by (simp add: distinct_map)
  then have "distinct (unmatched c as bs)" by (simp add: unmatched_def)
  moreover from assms(2,3) have "r \<in> set (unmatched c as bs)" by (simp add: unmatched_def)
  ultimately show ?thesis by (simp add: distinct_count_atmost_1)
qed

text \<open>
  Claim C4, as amended. In a run that ends without fault on two files in which no two
  rows of the same file have the same key hash, every row of input A whose key hash
  occurs in no row of input B is written exactly once with its full content and the
  marker \<open>-\<close>, every row of input B whose key hash occurs in no row of input A is
  written exactly once with its full content and the marker \<open>+\<close>, and the removed and
  the added counter end at the number of such rows of A and of B. (Such a row is written
  at once when it arrives after the other input is exhausted, and by the drain of the
  caches otherwise; \<open>step_onlyA\<close>, \<open>step_onlyB\<close> and \<open>drain_reconciled\<close> are the
  two places.)
\<close>

theorem unmatched_rows_emitted_once:
  "run config (fileOf as) (fileOf bs) = Inr (status, st)
   \<and> [] \<notin> set as \<and> [] \<notin> set bs
   \<and> distinct (map (keyHash config) as) \<and> distinct (map (keyHash config) bs) \<longrightarrow>
     (\<forall>r\<in>set as. keyHash config r \<notin> keyHash config ` set bs
         \<longrightarrow> count (mset (written st)) (delta r CHR ''-'') = 1)
   \<and> (\<forall>r\<in>set bs. keyHash config r \<notin> keyHash config ` set as
         \<longrightarrow> count (mset (written st)) (delta r CHR ''+'') = 1)
   \<and> removedCount st = of_nat (length (unmatched config as bs))
   \<and> addedCount st = of_nat (length (unmatched config bs as))"
proof
  assume a: "run config (fileOf as) (fileOf bs) = Inr (status, st)
   \<and> [] \<notin> set as \<and> [] \<notin> set bs
   \<and> distinct (map (keyHash config) as) \<and> distinct (map (keyHash config) bs)"
  then have R: "mset (emitted CHR ''-'' (written st)) = mset (unmatched config as bs)"
    "mset (emitted CHR ''+'' (written st)) = mset (unmatched config bs as)"
    "removedCount st = of_nat (length (unmatched config as bs))"
    "addedCount st = of_nat (length (unmatched config bs as))"
    using run_reconciles [of config as bs status st] by simp_all
  have 1: "count (mset (written st)) (delta r CHR ''-'') = 1"
    if "r \<in> set as" "keyHash config r \<notin> keyHash config ` set bs" for r
    using a that by (simp add: count_written R count_unmatched)
  have 2: "count (mset (written st)) (delta r CHR ''+'') = 1"
    if "r \<in> set bs" "keyHash config r \<notin> keyHash config ` set as" for r
    using a that by (simp add: count_written R count_unmatched)
  from 1 2 R(3,4)
  show "(\<forall>r\<in>set as. keyHash config r \<notin> keyHash config ` set bs
         \<longrightarrow> count (mset (written st)) (delta r CHR ''-'') = 1)
   \<and> (\<forall>r\<in>set bs. keyHash config r \<notin> keyHash config ` set as
         \<longrightarrow> count (mset (written st)) (delta r CHR ''+'') = 1)
   \<and> removedCount st = of_nat (length (unmatched config as bs))
   \<and> addedCount st = of_nat (length (unmatched config bs as))"
    by blast
qed

subsection \<open>Two copies in the same order\<close>

lemma loop_same_order:
  assumes "\<forall>r\<in>set as. inRange c r"
  shows "\<exists>st'. loop c (fileOf as) (fileOf as) False False st = Inr st'
           \<and> cacheA st' = cacheA st \<and> cacheB st' = cacheB st
           \<and> addedCount st' = addedCount st \<and> removedCount st' = removedCount st
           \<and> modifiedCount st' = modifiedCount st"
  using assms
proof (induction as arbitrary: st)
  case Nil
  show ?case by (simp add: loop_Nil_Nil)
next
  case (Cons a as)
  then have a: "inRange c a" by simp
  then have ne: "a \<noteq> []" by (simp add: inRange_def)
  from body_total [OF a a] obtain s1 where b: "body c (Some a) (Some a) st = Inr s1" by blast
  let ?s0 = "st\<lparr>totalCount := totalCount st + 1\<rparr>"
  from body_both [OF b] have s1: "s1 = aligned c a a ?s0" by simp
  have sr: "sameRows c a a" by (simp add: sameRows_def areEquals_refl)
  have e: "cacheA s1 = cacheA st" "cacheB s1 = cacheB st" "addedCount s1 = addedCount st"
    "removedCount s1 = removedCount st" "modifiedCount s1 = modifiedCount st"
    using aligned_effect [of "CHR ''+''" c a a ?s0] sr by (simp_all add: s1)
  from Cons.IH [of s1] Cons.prems obtain st' where
    "loop c (fileOf as) (fileOf as) False False s1 = Inr st'"
    "cacheA st' = cacheA s1" "cacheB st' = cacheB s1" "addedCount st' = addedCount s1"
    "removedCount st' = removedCount s1" "modifiedCount st' = modifiedCount s1"
    by auto
  with b e show ?case
    by (simp add: loop_Cons_Cons [OF ne ne])
qed

lemma run_same_order:
  assumes "\<forall>r\<in>set as. inRange c r"
  shows "\<exists>st. run c (fileOf as) (fileOf as) = Inr (0, st)
        \<and> addedCount st = 0 \<and> removedCount st = 0 \<and> modifiedCount st = 0"
proof -
  from loop_same_order [OF assms, of initial] obtain s1 where
    l: "loop c (fileOf as) (fileOf as) False False initial = Inr s1"
    and e: "cacheA s1 = []" "cacheB s1 = []" "addedCount s1 = 0" "removedCount s1 = 0"
      "modifiedCount s1 = 0"
    by (auto simp: initial_def)
  let ?d = "drainB (drainA s1)"
  have c: "removedCount ?d = 0" "addedCount ?d = 0" "modifiedCount ?d = 0"
    by (simp_all add: drain_state e)
  then have "summary ?d = Inr (0, ?d)"
    by (simp add: summary_def)
  with l c show ?thesis
    by (simp add: run_def)
qed

text \<open>
  Claim C1, as amended. For every dataset in which every configured index is usable on
  every row (\<open>inRange\<close>), running the program on two inputs that are permutations of
  the dataset ends without fault with exit status 0 and with the added, removed and
  modified counters at zero, provided that the two inputs list the rows in the same order
  or that no two rows of the dataset have the same key hash.
\<close>

theorem identity_run:
  "mset as = mset bs \<and> (\<forall>r\<in>set as. inRange config r)
   \<and> (as = bs \<or> distinct (map (keyHash config) as)) \<longrightarrow>
     (\<exists>st. run config (fileOf as) (fileOf bs) = Inr (0, st)
        \<and> addedCount st = 0 \<and> removedCount st = 0 \<and> modifiedCount st = 0)"
proof
  assume a: "mset as = mset bs \<and> (\<forall>r\<in>set as. inRange config r)
      \<and> (as = bs \<or> distinct (map (keyHash config) as))"
  then have m: "mset as = mset bs" and ra: "\<forall>r\<in>set as. inRange config r" by simp_all
  show "\<exists>st. run config (fileOf as) (fileOf bs) = Inr (0, st)
        \<and> addedCount st = 0 \<and> removedCount st = 0 \<and> modifiedCount st = 0"
  proof (cases "as = bs")
    case True
    with run_same_order [OF ra] show ?thesis by simp
  next
    case False
    with a have da: "distinct (map (keyHash config) as)" by simp
    from m have s: "set as = set bs" by (rule mset_eq_setD)
    from m have len: "length as = length bs" by (rule mset_eq_length)
    from ra s have rb: "\<forall>r\<in>set bs. inRange config r" by simp
    from ra rb have ne: "[] \<notin> set as" "[] \<notin> set bs" by (auto simp: inRange_def)
    from m have "mset (map (keyHash config) as) = mset (map (keyHash config) bs)" by simp
    from mset_eq_imp_distinct_iff [OF this] da have db: "distinct (map (keyHash config) bs)"
      by blast
    from loop_total [OF len ra rb] obtain s1 where
      l: "loop config (fileOf as) (fileOf bs) False False initial = Inr s1" by blast
    have "reconciled config ([] @ as) ([] @ bs) s1"
      using ne da db l
      by (intro loop_reconciled [where st = initial])
         (simp_all add: reconciled_initial, simp_all add: initial_def emitted_def)
    then have R: "reconciled config as bs s1" by simp
    have u1: "unmatched config as bs = []"
      by (auto simp: unmatched_def filter_empty_conv s)
    have u2: "unmatched config bs as = []"
      by (auto simp: unmatched_def filter_empty_conv s)
    have ch: "changed config as bs = []"
    proof -
      have "sameRows config x y"
        if "x \<in> set as" "y \<in> set bs" "keyHash config y = keyHash config x" for x y
      proof -
        from that s have "y \<in> set as" by simp
        from unique_key [OF da this that(1) that(3)] have "y = x" .
        then show ?thesis by (simp add: sameRows_def areEquals_refl)
      qed
      then show ?thesis by (auto simp: changed_def filter_empty_conv)
    qed
    let ?d = "drainB (drainA s1)"
    from drain_reconciled [OF R] have c: "removedCount ?d = 0" "addedCount ?d = 0"
      "modifiedCount ?d = 0"
      by (simp_all add: u1 u2 ch)
    then have "summary ?d = Inr (0, ?d)"
      by (simp add: summary_def)
    with l c show ?thesis
      by (simp add: run_def)
  qed
qed


theorem unmatched_rows_emitted_once_witness:
  "(\<exists>st. run (exampleConfig False) (fileOf exampleA) (fileOf exampleB) = Inr (1, st)
      \<and> count (mset (written st)) [''-'', ''4'', ''Dana'', ''40''] = 1
      \<and> count (mset (written st)) [''+'', ''3'', ''Carol'', ''22''] = 1
      \<and> removedCount st = 1 \<and> addedCount st = 1)
   \<and> (\<exists>st. run (exampleConfig False) (fileOf tailA) (fileOf tailB) = Inr (1, st)
      \<and> count (mset (written st)) [''-'', ''2'', ''b''] = 1
      \<and> removedCount st = 1 \<and> addedCount st = 0)"
proof -
  let ?c = "exampleConfig False"
  have h1: "[] \<notin> set exampleA \<and> [] \<notin> set exampleB
      \<and> distinct (map (keyHash ?c) exampleA) \<and> distinct (map (keyHash ?c) exampleB)"
    by code_simp
  have k1: "[''4'', ''Dana'', ''40''] \<in> set exampleA
      \<and> keyHash ?c [''4'', ''Dana'', ''40''] \<notin> keyHash ?c ` set exampleB
      \<and> [''3'', ''Carol'', ''22''] \<in> set exampleB
      \<and> keyHash ?c [''3'', ''Carol'', ''22''] \<notin> keyHash ?c ` set exampleA"
    by code_simp
  have u1: "unmatched ?c exampleA exampleB = [[''4'', ''Dana'', ''40'']]
      \<and> unmatched ?c exampleB exampleA = [[''3'', ''Carol'', ''22'']]"
    by code_simp
  have "case run ?c (fileOf exampleA) (fileOf exampleB) of
          Inl _ \<Rightarrow> False | Inr (status, st) \<Rightarrow> status = 1"
    by code_simp
  then obtain s1 where r1: "run ?c (fileOf exampleA) (fileOf exampleB) = Inr (1, s1)"
    by (auto split: sum.splits)
  from r1 h1 k1 u1 unmatched_rows_emitted_once [of ?c exampleA exampleB 1 s1]
  have 1: "count (mset (written s1)) [''-'', ''4'', ''Dana'', ''40''] = 1
      \<and> count (mset (written s1)) [''+'', ''3'', ''Carol'', ''22''] = 1
      \<and> removedCount s1 = 1 \<and> addedCount s1 = 1"
    by (simp add: delta_def)
  have h2: "[] \<notin> set tailA \<and> [] \<notin> set tailB
      \<and> distinct (map (keyHash ?c) tailA) \<and> distinct (map (keyHash ?c) tailB)"
    by code_simp
  have k2: "[''2'', ''b''] \<in> set tailA \<and> keyHash ?c [''2'', ''b''] \<notin> keyHash ?c ` set tailB"
    by code_simp
  have u2: "unmatched ?c tailA tailB = [[''2'', ''b'']] \<and> unmatched ?c tailB tailA = []"
    by code_simp
  have "case run ?c (fileOf tailA) (fileOf tailB) of
          Inl _ \<Rightarrow> False | Inr (status, st) \<Rightarrow> status = 1"
    by code_simp
  then obtain s2 where r2: "run ?c (fileOf tailA) (fileOf tailB) = Inr (1, s2)"
    by (auto split: sum.splits)
  from r2 h2 k2 u2 unmatched_rows_emitted_once [of ?c tailA tailB 1 s2]
  have 2: "count (mset (written s2)) [''-'', ''2'', ''b''] = 1
      \<and> removedCount s2 = 1 \<and> addedCount s2 = 0"
    by (simp add: delta_def)
  from r1 1 r2 2 show ?thesis by blast
qed

text \<open>
  The claim as stated fails for a row that is overwritten in its cache: in the first
  file below the key \<open>1\<close> occurs twice and in no row of the second file; the second
  row replaces the first in the cache, only the second is written as a removal, and the
  removed counter ends at 1.
\<close>

theorem overwritten_row_counterexample:
  "[''1'', ''a''] \<in> set lostA
   \<and> keyHash (exampleConfig False) [''1'', ''a''] \<notin> keyHash (exampleConfig False) ` set lostB
   \<and> parseArgs (exampleFlags False) False = Inr (exampleConfig False)
   \<and> (case main (exampleFlags False) False (fileOf lostA) (fileOf lostB) of
         Inl _ \<Rightarrow> False
       | Inr (status, st) \<Rightarrow>
           written st = [[''-'', ''1'', ''b''], [''+'', ''2'', ''x''], [''+'', ''3'', ''y'']]
         \<and> [''-'', ''1'', ''a''] \<notin> set (written st) \<and> removedCount st = 1)"
  by code_simp

theorem identity_run_witness:
  "(\<exists>st. run (exampleConfig False) (fileOf exampleA) (fileOf (rev exampleA)) = Inr (0, st)
      \<and> addedCount st = 0 \<and> removedCount st = 0 \<and> modifiedCount st = 0)
   \<and> \<not> distinct (map (keyHash (exampleConfig False)) sameKeyA)
   \<and> (\<exists>st. run (exampleConfig False) (fileOf sameKeyA) (fileOf sameKeyA) = Inr (0, st)
      \<and> addedCount st = 0 \<and> removedCount st = 0 \<and> modifiedCount st = 0)"
proof -
  have m: "mset exampleA = mset (rev exampleA)"
    by simp
  have h: "(\<forall>r\<in>set exampleA. inRange (exampleConfig False) r)
      \<and> distinct (map (keyHash (exampleConfig False)) exampleA)"
    by code_simp
  from m h identity_run [of exampleA "rev exampleA" "exampleConfig False"]
  have 1: "\<exists>st. run (exampleConfig False) (fileOf exampleA) (fileOf (rev exampleA)) = Inr (0, st)
      \<and> addedCount st = 0 \<and> removedCount st = 0 \<and> modifiedCount st = 0"
    by blast
  have k: "(\<forall>r\<in>set sameKeyA. inRange (exampleConfig False) r)
      \<and> \<not> distinct (map (keyHash (exampleConfig False)) sameKeyA)"
    by code_simp
  with identity_run [of sameKeyA sameKeyA "exampleConfig False"]
  have 2: "\<exists>st. run (exampleConfig False) (fileOf sameKeyA) (fileOf sameKeyA) = Inr (0, st)
      \<and> addedCount st = 0 \<and> removedCount st = 0 \<and> modifiedCount st = 0"
    by blast
  from 1 k 2 show ?thesis by blast
qed

text \<open>
  The claim as stated fails for a dataset in which two rows have the same key: a
  permutation brings the two rows face to face, they are compared with each other, and
  two modifications are counted.
\<close>

theorem identity_same_key_counterexample:
  "mset sameKeyA = mset sameKeyB
   \<and> (case main (exampleFlags False) False (fileOf sameKeyA) (fileOf sameKeyB) of
         Inl _ \<Rightarrow> False
       | Inr (status, st) \<Rightarrow> status = 1 \<and> modifiedCount st = 2
           \<and> written st = [[''#'', ''1'', ''a|-|b''], [''#'', ''1'', ''b|-|a'']])"
proof -
  have "mset sameKeyA = mset sameKeyB"
    by (simp add: sameKeyA_def sameKeyB_def)
  moreover have "case main (exampleFlags False) False (fileOf sameKeyA) (fileOf sameKeyB) of
         Inl _ \<Rightarrow> False
       | Inr (status, st) \<Rightarrow> status = 1 \<and> modifiedCount st = 2
           \<and> written st = [[''#'', ''1'', ''a|-|b''], [''#'', ''1'', ''b|-|a'']]"
    by code_simp
  ultimately show ?thesis by blast
qed

subsection \<open>The order of a range over a map\<close>

text \<open>
  Go leaves the order in which \<^verbatim>\<open>range\<close> visits a map open, and the model fixes one.
  What a run yields does not depend on that choice beyond what is shown here: whether the
  check of the ignored fields passes depends on the set of the indexes only (the index
  named in the message is one that is out of range, \<open>checkIgnored_fails\<close>), and the two
  drains, on caches listed in any other order, write the same rows up to their order and
  leave the same counters, the same messages and the same exit status.
\<close>

lemma checkIgnored_Inr_iff:
  "checkIgnored fs rowA rowB = Inr () \<longleftrightarrow> (\<forall>f\<in>set fs. f < len rowA \<and> f < len rowB)"
  by (induction fs) auto

lemma checkIgnored_order:
  assumes "set fs = set gs"
  shows "checkIgnored fs rowA rowB = Inr () \<longleftrightarrow> checkIgnored gs rowA rowB = Inr ()"
  using assms by (simp add: checkIgnored_Inr_iff)

lemma checkRow_order:
  assumes "set fs = set (ignoredFields config)"
  shows "checkRow rowA rowB (config\<lparr>ignoredFields := fs\<rparr>) = Inr ()
           \<longleftrightarrow> checkRow rowA rowB config = Inr ()"
  using checkIgnored_order [OF assms, of rowA rowB]
  by (simp add: checkRow_def split: sum.splits)

lemma drain_order:
  assumes "mset ca = mset (cacheA st)" "mset cb = mset (cacheB st)"
  defines "d \<equiv> drainB (drainA st)"
    and "d' \<equiv> drainB (drainA (st\<lparr>cacheA := ca, cacheB := cb\<rparr>))"
  shows "mset (written d') = mset (written d)"
    and "removedCount d' = removedCount d"
    and "addedCount d' = addedCount d"
    and "modifiedCount d' = modifiedCount d"
    and "totalCount d' = totalCount d"
    and "diags d' = diags d"
    and "(case summary d' of Inl e \<Rightarrow> Inl e | Inr (status, s) \<Rightarrow> Inr (status, diags s))
           = (case summary d of Inl e \<Rightarrow> Inl e | Inr (status, s) \<Rightarrow> Inr (status, diags s))"
proof -
  from assms(1) have la: "length ca = length (cacheA st)" by (rule mset_eq_length)
  from assms(2) have lb: "length cb = length (cacheB st)" by (rule mset_eq_length)
  from assms(1) have ma: "mset (map f ca) = mset (map f (cacheA st))" for f :: "RowHash \<times> Row \<Rightarrow> Row"
    by simp
  from assms(2) have mb: "mset (map f cb) = mset (map f (cacheB st))" for f :: "RowHash \<times> Row \<Rightarrow> Row"
    by simp
  show "mset (written d') = mset (written d)"
    unfolding d_def d'_def drain_state by (simp add: ma mb del: mset_map)
  show c: "removedCount d' = removedCount d" "addedCount d' = addedCount d"
    "modifiedCount d' = modifiedCount d" "totalCount d' = totalCount d" "diags d' = diags d"
    unfolding d_def d'_def drain_state by (simp_all add: la lb)
  have h: "headers d' = headers d" "modifiedFields d' = modifiedFields d"
    unfolding d_def d'_def drain_state by simp_all
  show "(case summary d' of Inl e \<Rightarrow> Inl e | Inr (status, s) \<Rightarrow> Inr (status, diags s))
           = (case summary d of Inl e \<Rightarrow> Inl e | Inr (status, s) \<Rightarrow> Inr (status, diags s))"
    by (simp add: summary_def Let_def c h split: sum.splits)
qed

end
